theory Spec2Isabelle
  imports Main
begin

section \<open>JavaScript values shared by the three generators\<close>

text \<open>
  The only exception the generators can raise is the \<^verbatim>\<open>TypeError\<close> of reading or
  writing a property of \<^verbatim>\<open>undefined\<close>.
\<close>

datatype error = TypeError

text \<open>
  A JavaScript array is an object: \<^verbatim>\<open>a[k]\<close> for a key never written is
  \<^verbatim>\<open>undefined\<close> (here \<open>None\<close>), \<^verbatim>\<open>a[k] = v\<close> stores \<open>v\<close> under any
  integer key, a negative one included, and \<^verbatim>\<open>length\<close> grows only for keys
  \<open>k \<ge> length\<close>. \<^verbatim>\<open>a.map(f)\<close> visits the keys \<open>0 .. length - 1\<close> alone.
\<close>

record 'a jsarray =
  len :: nat
  at :: "int \<Rightarrow> 'a option"

definition newArray :: "nat \<Rightarrow> (nat \<Rightarrow> 'a) \<Rightarrow> 'a jsarray" where
  "newArray n f = \<lparr>len = n, at = (\<lambda>k. if 0 \<le> k \<and> k < int n then Some (f (nat k)) else None)\<rparr>"

definition aset :: "'a jsarray \<Rightarrow> int \<Rightarrow> 'a \<Rightarrow> 'a jsarray" where
  "aset a k v = \<lparr>len = (if 0 \<le> k then max (len a) (nat k + 1) else len a), at = (at a)(k \<mapsto> v)\<rparr>"

definition amap :: "('a \<Rightarrow> 'b) \<Rightarrow> 'a jsarray \<Rightarrow> 'b jsarray" where
  "amap f a = \<lparr>len = len a,
     at = (\<lambda>k. if 0 \<le> k \<and> k < int (len a) then map_option f (at a k) else None)\<rparr>"

text \<open>
  A grid is an array of rows. The outer array is never assigned by index, so it is a
  list; \<^verbatim>\<open>grid[r]\<close> is \<^verbatim>\<open>undefined\<close> outside \<open>0 .. length - 1\<close>, and
  indexing \<^verbatim>\<open>undefined\<close> throws.
\<close>

definition rowAt :: "'a jsarray list \<Rightarrow> int \<Rightarrow> 'a jsarray option" where
  "rowAt g r = (if 0 \<le> r \<and> r < int (length g) then Some (g ! nat r) else None)"

definition cellAt :: "'a jsarray list \<Rightarrow> int \<Rightarrow> int \<Rightarrow> error + 'a option" where
  "cellAt g r c = (case rowAt g r of None \<Rightarrow> Inl TypeError | Some rw \<Rightarrow> Inr (at rw c))"

definition setCell :: "'a jsarray list \<Rightarrow> int \<Rightarrow> int \<Rightarrow> 'a \<Rightarrow> error + 'a jsarray list" where
  "setCell g r c v =
     (case rowAt g r of None \<Rightarrow> Inl TypeError | Some rw \<Rightarrow> Inr (g[nat r := aset rw c v]))"

text \<open>
  A run of \<^verbatim>\<open>if (guard && test) return false\<close> statements: the first test that throws
  or succeeds decides, and the tests after it are not evaluated.
\<close>

definition guarded :: "bool \<Rightarrow> error + bool \<Rightarrow> error + bool" where
  "guarded b m = (if b then m else Inr False)"

fun firstOf :: "(error + bool) list \<Rightarrow> error + bool" where
  "firstOf [] = Inr False"
| "firstOf (m # ms) =
     (case m of Inl e \<Rightarrow> Inl e | Inr True \<Rightarrow> Inr True | Inr False \<Rightarrow> firstOf ms)"

text \<open>
  The ambient random source is a parameter: \<open>rnd t\<close> stands for the \<open>t\<close>-th call of
  \<^verbatim>\<open>Math.random()\<close>, and \<^verbatim>\<open>Math.floor(Math.random() * n)\<close> is read off it by
  \<open>randomInt\<close>. For \<open>n > 0\<close> the result ranges over exactly \<open>0 .. n - 1\<close>, for
  \<open>n = 0\<close> it is \<open>0\<close>, and for \<open>n < 0\<close> it ranges over \<open>n .. 0\<close>, as the floor of a
  product with a number in \<open>[0, 1)\<close> does.
\<close>

definition randomInt :: "(nat \<Rightarrow> nat) \<Rightarrow> nat \<Rightarrow> int \<Rightarrow> int" where
  "randomInt rnd t n =
     (if n > 0 then int (rnd t mod nat n)
      else if n = 0 then 0
      else - int (rnd t mod (nat (- n) + 1)))"

section \<open>Crossword generator (Crossword.jsx)\<close>

type_synonym cwgrid = "char jsarray list"

record placedWord =
  wtext :: string
  row :: int
  col :: int
  vertical :: bool

record displayCell =
  letter :: string
  isBlack :: bool
  hasNumber :: bool
  number :: "nat option"

record crossword =
  grid :: "displayCell jsarray list"
  across :: "(nat \<times> string) list"
  down :: "(nat \<times> string) list"

definition blank :: char where
  "blank = CHR ''_''"

text \<open>\<^verbatim>\<open>grid[r][c] !== '_'\<close>; \<^verbatim>\<open>undefined\<close> differs from every string.\<close>

definition notBlank :: "cwgrid \<Rightarrow> int \<Rightarrow> int \<Rightarrow> error + bool" where
  "notBlank g r c = (case cellAt g r c of Inl e \<Rightarrow> Inl e | Inr cell \<Rightarrow> Inr (cell \<noteq> Some blank))"

text \<open>The two loops of \<^verbatim>\<open>canPlaceWord\<close>, over the letter indices still to check.\<close>

fun canPlaceVertical :: "cwgrid \<Rightarrow> string \<Rightarrow> int \<Rightarrow> int \<Rightarrow> nat list \<Rightarrow> error + bool" where
  "canPlaceVertical g word r c [] = Inr True"
| "canPlaceVertical g word r c (i # is) =
     (let gridSize = int (length g); n = int (length word) in
      case cellAt g (r + int i) c of Inl e \<Rightarrow> Inl e
      | Inr cell \<Rightarrow>
          if cell \<noteq> Some blank \<and> cell \<noteq> Some (word ! i) then Inr False
          else if cell \<noteq> Some blank then canPlaceVertical g word r c is
          else (case firstOf
                  [guarded (c > 0) (notBlank g (r + int i) (c - 1)),
                   guarded (c < gridSize - 1) (notBlank g (r + int i) (c + 1)),
                   guarded (int i = 0 \<and> r > 0) (notBlank g (r - 1) c),
                   guarded (int i = n - 1 \<and> r + n < gridSize) (notBlank g (r + n) c)]
                of Inl e \<Rightarrow> Inl e
                 | Inr True \<Rightarrow> Inr False
                 | Inr False \<Rightarrow> canPlaceVertical g word r c is))"

fun canPlaceHorizontal :: "cwgrid \<Rightarrow> string \<Rightarrow> int \<Rightarrow> int \<Rightarrow> nat list \<Rightarrow> error + bool" where
  "canPlaceHorizontal g word r c [] = Inr True"
| "canPlaceHorizontal g word r c (i # is) =
     (let gridSize = int (length g); n = int (length word) in
      case cellAt g r (c + int i) of Inl e \<Rightarrow> Inl e
      | Inr cell \<Rightarrow>
          if cell \<noteq> Some blank \<and> cell \<noteq> Some (word ! i) then Inr False
          else if cell \<noteq> Some blank then canPlaceHorizontal g word r c is
          else (case firstOf
                  [guarded (r > 0) (notBlank g (r - 1) (c + int i)),
                   guarded (r < gridSize - 1) (notBlank g (r + 1) (c + int i)),
                   guarded (int i = 0 \<and> c > 0) (notBlank g r (c - 1)),
                   guarded (int i = n - 1 \<and> c + n < gridSize) (notBlank g r (c + n))]
                of Inl e \<Rightarrow> Inl e
                 | Inr True \<Rightarrow> Inr False
                 | Inr False \<Rightarrow> canPlaceHorizontal g word r c is))"

definition canPlaceWord :: "cwgrid \<Rightarrow> string \<Rightarrow> int \<Rightarrow> int \<Rightarrow> bool \<Rightarrow> error + bool" where
  "canPlaceWord g word r c vert =
     (let gridSize = int (length g); n = int (length word) in
      if vert then
        if r < 0 \<or> r + n > gridSize then Inr False
        else canPlaceVertical g word r c [0..<length word]
      else
        if c < 0 \<or> c + n > gridSize then Inr False
        else canPlaceHorizontal g word r c [0..<length word])"

text \<open>\<^verbatim>\<open>placeWord\<close>: one write per letter, in index order.\<close>

fun writeLetters :: "cwgrid \<Rightarrow> string \<Rightarrow> int \<Rightarrow> int \<Rightarrow> bool \<Rightarrow> nat list \<Rightarrow> error + cwgrid" where
  "writeLetters g word r c vert [] = Inr g"
| "writeLetters g word r c vert (i # is) =
     (case (if vert then setCell g (r + int i) c (word ! i)
            else setCell g r (c + int i) (word ! i)) of
        Inl e \<Rightarrow> Inl e
      | Inr g' \<Rightarrow> writeLetters g' word r c vert is)"

definition placeWord :: "cwgrid \<Rightarrow> string \<Rightarrow> int \<Rightarrow> int \<Rightarrow> bool \<Rightarrow> error + cwgrid" where
  "placeWord g word r c vert = writeLetters g word r c vert [0..<length word]"

text \<open>
  The intersection search of \<^verbatim>\<open>generateCrossword\<close> for one word: letter index \<open>i\<close> of
  the word, then the placed words in placement order, then letter index \<open>j\<close> of the placed
  word. The first candidate that \<^verbatim>\<open>canPlaceWord\<close> accepts is returned.
\<close>

definition candidate :: "placedWord \<Rightarrow> nat \<Rightarrow> nat \<Rightarrow> int \<times> int \<times> bool" where
  "candidate pw i j =
     (if vertical pw then (row pw + int j, col pw - int i, \<not> vertical pw)
      else (row pw - int i, col pw + int j, \<not> vertical pw))"

fun scanLetters ::
  "cwgrid \<Rightarrow> string \<Rightarrow> nat \<Rightarrow> placedWord \<Rightarrow> nat list \<Rightarrow> error + (int \<times> int \<times> bool) option" where
  "scanLetters g word i pw [] = Inr None"
| "scanLetters g word i pw (j # js) =
     (if wtext pw ! j = word ! i then
        (case candidate pw i j of (newRow, newCol, vert) \<Rightarrow>
           (case canPlaceWord g word newRow newCol vert of
              Inl e \<Rightarrow> Inl e
            | Inr True \<Rightarrow> Inr (Some (newRow, newCol, vert))
            | Inr False \<Rightarrow> scanLetters g word i pw js))
      else scanLetters g word i pw js)"

fun scanPlaced ::
  "cwgrid \<Rightarrow> string \<Rightarrow> nat \<Rightarrow> placedWord list \<Rightarrow> error + (int \<times> int \<times> bool) option" where
  "scanPlaced g word i [] = Inr None"
| "scanPlaced g word i (pw # pws) =
     (case scanLetters g word i pw [0..<length (wtext pw)] of
        Inl e \<Rightarrow> Inl e
      | Inr (Some p) \<Rightarrow> Inr (Some p)
      | Inr None \<Rightarrow> scanPlaced g word i pws)"

fun scanWord ::
  "cwgrid \<Rightarrow> string \<Rightarrow> placedWord list \<Rightarrow> nat list \<Rightarrow> error + (int \<times> int \<times> bool) option" where
  "scanWord g word pws [] = Inr None"
| "scanWord g word pws (i # is) =
     (case scanPlaced g word i pws of
        Inl e \<Rightarrow> Inl e
      | Inr (Some p) \<Rightarrow> Inr (Some p)
      | Inr None \<Rightarrow> scanWord g word pws is)"

text \<open>The body of the loop over \<^verbatim>\<open>wordIdx\<close>: place the word where the search says, or drop it.\<close>

definition placeNext :: "cwgrid \<times> placedWord list \<Rightarrow> string \<Rightarrow> error + cwgrid \<times> placedWord list" where
  "placeNext s word =
     (case s of (g, pws) \<Rightarrow>
        (case scanWord g word pws [0..<length word] of
           Inl e \<Rightarrow> Inl e
         | Inr None \<Rightarrow> Inr (g, pws)
         | Inr (Some (newRow, newCol, vert)) \<Rightarrow>
             (case placeWord g word newRow newCol vert of
                Inl e \<Rightarrow> Inl e
              | Inr g' \<Rightarrow>
                  Inr (g', pws @ [\<lparr>wtext = word, row = newRow, col = newCol, vertical = vert\<rparr>]))))"

fun placeRemaining ::
  "string list \<Rightarrow> cwgrid \<times> placedWord list \<Rightarrow> nat list \<Rightarrow> error + cwgrid \<times> placedWord list" where
  "placeRemaining words s [] = Inr s"
| "placeRemaining words s (wordIdx # rest) =
     (case placeNext s (words ! wordIdx) of
        Inl e \<Rightarrow> Inl e
      | Inr s' \<Rightarrow> placeRemaining words s' rest)"

definition gridSize :: nat where
  "gridSize = 15"

definition emptyGrid :: cwgrid where
  "emptyGrid = replicate gridSize (newArray gridSize (\<lambda>_. blank))"

text \<open>
  Lines 62 to 125 of \<^verbatim>\<open>generateCrossword\<close> for a non-empty word list: the first word
  goes on row \<open>\<lfloor>15 / 2\<rfloor>\<close> from column \<open>\<lfloor>(15 - length) / 2\<rfloor>\<close>, the words at indices
  \<open>1 .. min (length words) 8 - 1\<close> are placed by intersection.
\<close>

definition placeWords :: "string list \<Rightarrow> error + cwgrid \<times> placedWord list" where
  "placeWords words =
     (let firstWord = words ! 0;
          startRow = int gridSize div 2;
          startCol = (int gridSize - int (length firstWord)) div 2
      in case writeLetters emptyGrid firstWord startRow startCol False [0..<length firstWord] of
           Inl e \<Rightarrow> Inl e
         | Inr g \<Rightarrow>
             placeRemaining words
               (g, [\<lparr>wtext = firstWord, row = startRow, col = startCol, vertical = False\<rparr>])
               [1..<min (length words) 8])"

definition clues :: "(string \<times> string) list" where
  "clues =
     [(''NOAH'', ''Built the big boat''),
      (''ARK'', ''Big floating boat''),
      (''RAINBOW'', ''Colors in the sky''),
      (''ANIMALS'', ''In the big boat''),
      (''WATER'', ''Falls from sky''),
      (''DOVE'', ''White bird''),
      (''PROMISE'', ''God said yes''),
      (''FLOOD'', ''Lots of rain''),
      (''RAIN'', ''Falls from clouds''),
      (''BOAT'', ''Floats on water''),
      (''SAVE'', ''Help others''),
      (''PAIR'', ''Two together''),
      (''GOD'', ''Made everything''),
      (''LOVE'', ''Big hug feeling''),
      (''JESUS'', ''God's son''),
      (''PRAY'', ''Talk to God''),
      (''BIBLE'', ''God's book''),
      (''FAITH'', ''Believe in God'')]"

text \<open>
  \<^verbatim>\<open>getClue\<close> on the words of the table and on words that are no property name of
  \<^verbatim>\<open>Object.prototype\<close> (for those the lookup finds an inherited function).
\<close>

definition getClue :: "string \<Rightarrow> string" where
  "getClue word =
     (case map_of clues word of
        Some c \<Rightarrow> c
      | None \<Rightarrow> word @ '' (starts with '' @ take 1 word @ '')'')"

definition toDisplay :: "char \<Rightarrow> displayCell" where
  "toDisplay cell =
     \<lparr>letter = (if cell = blank then [] else [cell]), isBlack = (cell = blank),
      hasNumber = False, number = None\<rparr>"

text \<open>
  The numbering loop. \<^verbatim>\<open>displayGrid[gridRow][gridCol].hasNumber = true\<close> throws when
  the row or the cell is \<^verbatim>\<open>undefined\<close>.
\<close>

fun addNumbers ::
  "displayCell jsarray list \<Rightarrow> nat \<Rightarrow> (nat \<times> string) list \<Rightarrow> (nat \<times> string) list \<Rightarrow>
   placedWord list \<Rightarrow> error + crossword" where
  "addNumbers dg clueNum acr dwn [] = Inr \<lparr>grid = dg, across = acr, down = dwn\<rparr>"
| "addNumbers dg clueNum acr dwn (pw # pws) =
     (case cellAt dg (row pw) (col pw) of
        Inl e \<Rightarrow> Inl e
      | Inr None \<Rightarrow> Inl TypeError
      | Inr (Some cell) \<Rightarrow>
          (case setCell dg (row pw) (col pw) (cell\<lparr>hasNumber := True, number := Some clueNum\<rparr>) of
             Inl e \<Rightarrow> Inl e
           | Inr dg' \<Rightarrow>
               if vertical pw
               then addNumbers dg' (clueNum + 1) acr (dwn @ [(clueNum, getClue (wtext pw))]) pws
               else addNumbers dg' (clueNum + 1) (acr @ [(clueNum, getClue (wtext pw))]) dwn pws))"

definition generateCrossword :: "string list \<Rightarrow> error + crossword" where
  "generateCrossword words =
     (if length words = 0 then Inr \<lparr>grid = [], across = [], down = []\<rparr>
      else case placeWords words of
             Inl e \<Rightarrow> Inl e
           | Inr (g, placedWords) \<Rightarrow> addNumbers (map (amap toDisplay) g) 1 [] [] placedWords)"

section \<open>Word-search generator (WordSearch.jsx)\<close>

text \<open>\<^verbatim>\<open>String.fromCharCode(65 + k)\<close> for \<open>k\<close> in \<open>0 .. 25\<close>.\<close>

definition fromCharCode :: "int \<Rightarrow> char" where
  "fromCharCode k = char_of k"

type_synonym wsgrid = "char jsarray list"

text \<open>A placed word: the normalised word and its path of \<open>(x, y)\<close> points.\<close>

record placedEntry =
  wword :: string
  path :: "(int \<times> int) list"

record wsstate =
  letters :: wsgrid
  placedWords :: "placedEntry list"
  calls :: nat

text \<open>Lines 24 to 30: every cell receives its own random letter, row by row.\<close>

definition initLetters :: "(nat \<Rightarrow> nat) \<Rightarrow> nat \<Rightarrow> wsgrid" where
  "initLetters rnd gs =
     map (\<lambda>y. newArray gs (\<lambda>x. fromCharCode (65 + randomInt rnd (y * gs + x) 26))) [0..<gs]"

text \<open>The cell of letter \<open>i\<close> for a direction and an anchor (lines 48 to 59 and 79 to 90).\<close>

definition cellOf :: "int \<Rightarrow> int \<Rightarrow> int \<Rightarrow> nat \<Rightarrow> int \<times> int" where
  "cellOf direction x y i =
     (if direction = 0 then (x + int i, y)
      else if direction = 1 then (x, y + int i)
      else if direction = 2 then (x + int i, y + int i)
      else if direction = 3 then (x - int i, y + int i)
      else (x, y))"

text \<open>\<^verbatim>\<open>placedWords.some(placedWord => placedWord.path.some(point => ...))\<close>\<close>

definition conflict :: "placedEntry list \<Rightarrow> int \<Rightarrow> int \<Rightarrow> bool" where
  "conflict pws checkX checkY =
     list_ex (\<lambda>placedWord. list_ex (\<lambda>point. fst point = checkX \<and> snd point = checkY)
       (path placedWord)) pws"

text \<open>The check loop (lines 46 to 74); it stops at the first disagreeing letter.\<close>

fun checkCells ::
  "wsgrid \<Rightarrow> placedEntry list \<Rightarrow> string \<Rightarrow> int \<Rightarrow> int \<Rightarrow> int \<Rightarrow> nat list \<Rightarrow> error + bool" where
  "checkCells g pws wordUpper direction x y [] = Inr True"
| "checkCells g pws wordUpper direction x y (i # is) =
     (case cellOf direction x y i of (checkX, checkY) \<Rightarrow>
        if conflict pws checkX checkY then
          (case cellAt g checkY checkX of
             Inl e \<Rightarrow> Inl e
           | Inr existingLetter \<Rightarrow>
               if existingLetter \<noteq> Some (wordUpper ! i) then Inr False
               else checkCells g pws wordUpper direction x y is)
        else checkCells g pws wordUpper direction x y is)"

text \<open>The write loop (lines 77 to 94): the letter goes into the grid, the point onto the path.\<close>

fun writeCells ::
  "wsgrid \<Rightarrow> (int \<times> int) list \<Rightarrow> string \<Rightarrow> int \<Rightarrow> int \<Rightarrow> int \<Rightarrow> nat list \<Rightarrow>
   error + wsgrid \<times> (int \<times> int) list" where
  "writeCells g pth wordUpper direction x y [] = Inr (g, pth)"
| "writeCells g pth wordUpper direction x y (i # is) =
     (case cellOf direction x y i of (placeX, placeY) \<Rightarrow>
        (case setCell g placeY placeX (wordUpper ! i) of
           Inl e \<Rightarrow> Inl e
         | Inr g' \<Rightarrow> writeCells g' (pth @ [(placeX, placeY)]) wordUpper direction x y is))"

text \<open>
  The anchor of an attempt (lines 42 to 44): three calls of \<^verbatim>\<open>Math.random()\<close>, for the
  direction, for \<open>x\<close> and for \<open>y\<close>.
\<close>

definition anchor :: "(nat \<Rightarrow> nat) \<Rightarrow> nat \<Rightarrow> nat \<Rightarrow> string \<Rightarrow> int \<times> int \<times> int" where
  "anchor rnd gs t wordUpper =
     (let direction = randomInt rnd t 4;
          x = randomInt rnd (t + 1)
                (int gs - (if direction = 0 \<or> direction = 2 then int (length wordUpper) else 0));
          y = randomInt rnd (t + 2)
                (int gs - (if direction = 1 \<or> direction = 2 \<or> direction = 3
                           then int (length wordUpper) else 0))
      in (direction, x, y))"

text \<open>
  One pass through the body of the retry loop (lines 41 to 97). The result carries the
  new state and the flag \<^verbatim>\<open>placed\<close>.
\<close>

definition attempt ::
  "(nat \<Rightarrow> nat) \<Rightarrow> nat \<Rightarrow> string \<Rightarrow> wsstate \<Rightarrow> error + wsstate \<times> bool" where
  "attempt rnd gs wordUpper s =
     (case anchor rnd gs (calls s) wordUpper of (direction, x, y) \<Rightarrow>
        (case checkCells (letters s) (placedWords s) wordUpper direction x y
                [0..<length wordUpper] of
           Inl e \<Rightarrow> Inl e
         | Inr False \<Rightarrow> Inr (s\<lparr>calls := calls s + 3\<rparr>, False)
         | Inr True \<Rightarrow>
             (case writeCells (letters s) [] wordUpper direction x y [0..<length wordUpper] of
                Inl e \<Rightarrow> Inl e
              | Inr (g', pth) \<Rightarrow>
                  Inr (\<lparr>letters = g',
                        placedWords = placedWords s @ [\<lparr>wword = wordUpper, path = pth\<rparr>],
                        calls = calls s + 3\<rparr>, True))))"

text \<open>\<^verbatim>\<open>while (!placed && attempts < 50)\<close>, entered with \<^verbatim>\<open>placed = false\<close>.\<close>

function retry ::
  "(nat \<Rightarrow> nat) \<Rightarrow> nat \<Rightarrow> string \<Rightarrow> nat \<Rightarrow> wsstate \<Rightarrow> error + wsstate" where
  "retry rnd gs wordUpper attempts s =
     (if attempts < 50 then
        (case attempt rnd gs wordUpper s of
           Inl e \<Rightarrow> Inl e
         | Inr (s', placed) \<Rightarrow>
             if placed then Inr s' else retry rnd gs wordUpper (attempts + 1) s')
      else Inr s)"
  by pat_completeness auto
termination
  by (relation "measure (\<lambda>(rnd, gs, wordUpper, attempts, s). 50 - attempts)") auto

declare retry.simps [simp del]

text \<open>
  The loop over the words (lines 34 to 99). \<open>normalise\<close> stands for
  \<^verbatim>\<open>word.toUpperCase().replace(/\s/g, '')\<close>, the case mapping and white-space class of
  the JavaScript engine.
\<close>

fun placeAll ::
  "('w \<Rightarrow> string) \<Rightarrow> (nat \<Rightarrow> nat) \<Rightarrow> nat \<Rightarrow> 'w list \<Rightarrow> wsstate \<Rightarrow> error + wsstate" where
  "placeAll normalise rnd gs [] s = Inr s"
| "placeAll normalise rnd gs (w # ws) s =
     (let wordUpper = normalise w in
      if length wordUpper > gs then placeAll normalise rnd gs ws s
      else (case retry rnd gs wordUpper 0 s of
              Inl e \<Rightarrow> Inl e
            | Inr s' \<Rightarrow> placeAll normalise rnd gs ws s'))"

text \<open>
  \<^verbatim>\<open>generateWordSearch\<close> up to the drawing: the letter grid and the placed words that
  the canvas code reads. The component fixes \<^verbatim>\<open>gridSize\<close> at 20.
\<close>

definition generateWordSearch ::
  "('w \<Rightarrow> string) \<Rightarrow> (nat \<Rightarrow> nat) \<Rightarrow> 'w list \<Rightarrow> nat \<Rightarrow> error + wsstate" where
  "generateWordSearch normalise rnd words gs =
     placeAll normalise rnd gs words
       \<lparr>letters = initLetters rnd gs, placedWords = [], calls = gs * gs\<rparr>"

text \<open>The normalisation on words of ASCII characters.\<close>

definition upperNoSpace :: "string \<Rightarrow> string" where
  "upperNoSpace w =
     filter (\<lambda>c. c \<notin> set [CHR 0x09, CHR 0x0A, CHR 0x0B, CHR 0x0C, CHR 0x0D, CHR 0x20])
       (map (\<lambda>c. if (97 :: nat) \<le> of_char c \<and> of_char c \<le> (122 :: nat)
                 then char_of (of_char c - (32 :: nat)) else c) w)"

section \<open>Maze generator (the Maze component)\<close>

text \<open>
  A cell object \<^verbatim>\<open>{ top, right, bottom, left, visited }\<close>. The wall fields carry the
  suffix \<open>Wall\<close>.
\<close>

record mazeCell =
  topWall :: bool
  rightWall :: bool
  bottomWall :: bool
  leftWall :: bool
  visited :: bool

datatype wall = WTop | WRight | WBottom | WLeft

type_synonym mgrid = "mazeCell list list"

text \<open>
  The maze grid is only ever read and written at \<^verbatim>\<open>grid[y][x]\<close> through a field of
  the cell, so a row is a list; outside the lists \<^verbatim>\<open>grid[y][x]\<close> is
  \<^verbatim>\<open>undefined\<close> (or \<^verbatim>\<open>grid[y]\<close> is) and the field access throws.
\<close>

definition mcell :: "mgrid \<Rightarrow> nat \<Rightarrow> nat \<Rightarrow> mazeCell option" where
  "mcell g y x = (if y < length g \<and> x < length (g ! y) then Some (g ! y ! x) else None)"

definition updCell :: "mgrid \<Rightarrow> nat \<Rightarrow> nat \<Rightarrow> (mazeCell \<Rightarrow> mazeCell) \<Rightarrow> error + mgrid" where
  "updCell g y x f =
     (case mcell g y x of
        None \<Rightarrow> Inl TypeError
      | Some c \<Rightarrow> Inr (g[y := (g ! y)[x := f c]]))"

text \<open>\<^verbatim>\<open>!grid[y][x].visited\<close>\<close>

definition unvisited :: "mgrid \<Rightarrow> nat \<Rightarrow> nat \<Rightarrow> error + bool" where
  "unvisited g y x = (case mcell g y x of None \<Rightarrow> Inl TypeError | Some c \<Rightarrow> Inr (\<not> visited c))"

record mstate =
  maze :: mgrid
  stack :: "(nat \<times> nat) list"
  current :: "nat \<times> nat"
  randomCalls :: nat
  carvings :: nat

text \<open>
  Lines 74 to 88: the unvisited neighbours in the order top, right, bottom, left, each
  test evaluated only when its bound check holds. Points are \<open>(x, y)\<close>.
\<close>

definition neighbors ::
  "int \<Rightarrow> int \<Rightarrow> mgrid \<Rightarrow> nat \<Rightarrow> nat \<Rightarrow> error + (nat \<times> nat \<times> wall) list" where
  "neighbors cols rows g x y =
     (case guarded (y > 0) (unvisited g (y - 1) x) of Inl e \<Rightarrow> Inl e | Inr t \<Rightarrow>
      case guarded (int x < cols - 1) (unvisited g y (x + 1)) of Inl e \<Rightarrow> Inl e | Inr r \<Rightarrow>
      case guarded (int y < rows - 1) (unvisited g (y + 1) x) of Inl e \<Rightarrow> Inl e | Inr b \<Rightarrow>
      case guarded (x > 0) (unvisited g y (x - 1)) of Inl e \<Rightarrow> Inl e | Inr l \<Rightarrow>
        Inr ((if t then [(x, y - 1, WTop)] else []) @
             (if r then [(x + 1, y, WRight)] else []) @
             (if b then [(x, y + 1, WBottom)] else []) @
             (if l then [(x - 1, y, WLeft)] else [])))"

text \<open>Lines 93 to 106: the wall goes on both sides, the current cell first.\<close>

definition removeWall :: "mgrid \<Rightarrow> nat \<times> nat \<Rightarrow> nat \<times> nat \<times> wall \<Rightarrow> error + mgrid" where
  "removeWall g cur nxt =
     (case cur of (cx, cy) \<Rightarrow> case nxt of (nx, ny, w) \<Rightarrow>
        (case w of
           WTop \<Rightarrow>
             (case updCell g cy cx (\<lambda>c. c\<lparr>topWall := False\<rparr>) of Inl e \<Rightarrow> Inl e
              | Inr g' \<Rightarrow> updCell g' ny nx (\<lambda>c. c\<lparr>bottomWall := False\<rparr>))
         | WRight \<Rightarrow>
             (case updCell g cy cx (\<lambda>c. c\<lparr>rightWall := False\<rparr>) of Inl e \<Rightarrow> Inl e
              | Inr g' \<Rightarrow> updCell g' ny nx (\<lambda>c. c\<lparr>leftWall := False\<rparr>))
         | WBottom \<Rightarrow>
             (case updCell g cy cx (\<lambda>c. c\<lparr>bottomWall := False\<rparr>) of Inl e \<Rightarrow> Inl e
              | Inr g' \<Rightarrow> updCell g' ny nx (\<lambda>c. c\<lparr>topWall := False\<rparr>))
         | WLeft \<Rightarrow>
             (case updCell g cy cx (\<lambda>c. c\<lparr>leftWall := False\<rparr>) of Inl e \<Rightarrow> Inl e
              | Inr g' \<Rightarrow> updCell g' ny nx (\<lambda>c. c\<lparr>rightWall := False\<rparr>))))"

text \<open>
  The body of the \<^verbatim>\<open>while\<close> loop (lines 74 to 116). The head of \<open>stack\<close> is the
  top of the JavaScript stack. \<open>carvings\<close> is a ghost field, no variable of the source:
  it counts the passes through the carving branch.
\<close>

definition mazeStep :: "(nat \<Rightarrow> nat) \<Rightarrow> int \<Rightarrow> int \<Rightarrow> mstate \<Rightarrow> error + mstate" where
  "mazeStep rnd cols rows s =
     (case current s of (cx, cy) \<Rightarrow>
        (case neighbors cols rows (maze s) cx cy of
           Inl e \<Rightarrow> Inl e
         | Inr ns \<Rightarrow>
             if length ns > 0 then
               (case ns ! nat (randomInt rnd (randomCalls s) (int (length ns))) of
                  (nx, ny, w) \<Rightarrow>
                    (case removeWall (maze s) (cx, cy) (nx, ny, w) of
                       Inl e \<Rightarrow> Inl e
                     | Inr g' \<Rightarrow>
                         (case updCell g' ny nx (\<lambda>c. c\<lparr>visited := True\<rparr>) of
                            Inl e \<Rightarrow> Inl e
                          | Inr g'' \<Rightarrow>
                              Inr \<lparr>maze = g'', stack = (cx, cy) # stack s, current = (nx, ny),
                                   randomCalls = randomCalls s + 1,
                                   carvings = carvings s + 1\<rparr>)))
             else
               (case stack s of
                  [] \<Rightarrow> Inl TypeError
                | prev # rest \<Rightarrow> Inr (s\<lparr>stack := rest, current := prev\<rparr>))))"

definition unvisitedCount :: "mgrid \<Rightarrow> nat" where
  "unvisitedCount g = sum_list (map (\<lambda>r. length (filter (\<lambda>c. \<not> visited c) r)) g)"

lemma filter_update_same:
  "x < length r \<Longrightarrow> P (r ! x) = P c \<Longrightarrow> length (filter P (r[x := c])) = length (filter P r)"
proof (induction r arbitrary: x)
  case Nil then show ?case by simp
next
  case (Cons a r) then show ?case by (cases x) auto
qed

lemma filter_update_drop:
  "x < length r \<Longrightarrow> P (r ! x) \<Longrightarrow> \<not> P c \<Longrightarrow> Suc (length (filter P (r[x := c]))) = length (filter P r)"
proof (induction r arbitrary: x)
  case Nil then show ?case by simp
next
  case (Cons a r) then show ?case by (cases x) auto
qed

lemma sum_map_update_same:
  "y < length g \<Longrightarrow> f (g ! y) = f r \<Longrightarrow> sum_list (map f (g[y := r])) = (sum_list (map f g) :: nat)"
proof (induction g arbitrary: y)
  case Nil then show ?case by simp
next
  case (Cons a g) then show ?case by (cases y) auto
qed

lemma sum_map_update_drop:
  "y < length g \<Longrightarrow> Suc (f r) = f (g ! y) \<Longrightarrow> Suc (sum_list (map f (g[y := r]))) = (sum_list (map f g) :: nat)"
proof (induction g arbitrary: y)
  case Nil then show ?case by simp
next
  case (Cons a g) then show ?case by (cases y) auto
qed

lemma updCell_count_same:
  assumes "updCell g y x f = Inr g'" and "\<And>c. visited (f c) = visited c"
  shows "unvisitedCount g' = unvisitedCount g"
proof -
  from assms(1) have y: "y < length g" and x: "x < length (g ! y)"
    and g': "g' = g[y := (g ! y)[x := f (g ! y ! x)]]"
    by (auto simp: updCell_def mcell_def split: if_splits)
  have "length (filter (\<lambda>c. \<not> visited c) ((g ! y)[x := f (g ! y ! x)])) =
        length (filter (\<lambda>c. \<not> visited c) (g ! y))"
    using x assms(2) by (intro filter_update_same) auto
  then show ?thesis
    unfolding unvisitedCount_def g' using y by (intro sum_map_update_same) auto
qed

lemma updCell_count_visit:
  assumes "updCell g y x (\<lambda>c. c\<lparr>visited := True\<rparr>) = Inr g'" and "unvisited g y x = Inr True"
  shows "Suc (unvisitedCount g') = unvisitedCount g"
proof -
  from assms(1) have y: "y < length g" and x: "x < length (g ! y)"
    and g': "g' = g[y := (g ! y)[x := (g ! y ! x)\<lparr>visited := True\<rparr>]]"
    by (auto simp: updCell_def mcell_def split: if_splits)
  from assms(2) y x have nv: "\<not> visited (g ! y ! x)"
    by (auto simp: unvisited_def mcell_def)
  have "Suc (length (filter (\<lambda>c. \<not> visited c) ((g ! y)[x := (g ! y ! x)\<lparr>visited := True\<rparr>]))) =
        length (filter (\<lambda>c. \<not> visited c) (g ! y))"
    using x nv by (intro filter_update_drop) auto
  then show ?thesis
    unfolding unvisitedCount_def g' using y by (intro sum_map_update_drop) auto
qed

lemma mcell_updCell:
  assumes "updCell g y x f = Inr g'"
  shows "mcell g' y' x' = (if y' = y \<and> x' = x then map_option f (mcell g y x) else mcell g y' x')"
proof -
  from assms have y: "y < length g" and x: "x < length (g ! y)"
    and g': "g' = g[y := (g ! y)[x := f (g ! y ! x)]]"
    by (auto simp: updCell_def mcell_def split: if_splits)
  show ?thesis
  proof (cases "y' = y")
    case True
    then show ?thesis using y x by (simp add: g' mcell_def nth_list_update)
  next
    case False
    then show ?thesis by (simp add: g' mcell_def)
  qed
qed

lemma updCell_unvisited_other:
  assumes "updCell g y x f = Inr g'" and "\<And>c. visited (f c) = visited c"
  shows "unvisited g' y' x' = unvisited g y' x'"
  unfolding unvisited_def mcell_updCell[OF assms(1)]
  by (cases "mcell g y x") (simp_all add: assms(2))

lemma removeWall_count:
  "removeWall g cur nxt = Inr g' \<Longrightarrow> unvisitedCount g' = unvisitedCount g"
  by (auto simp: removeWall_def split: prod.splits wall.splits sum.splits
      dest!: updCell_count_same)

lemma removeWall_unvisited:
  "removeWall g cur nxt = Inr g' \<Longrightarrow> unvisited g' y x = unvisited g y x"
  by (auto simp: removeWall_def split: prod.splits wall.splits sum.splits
      dest!: updCell_unvisited_other[where y'=y and x'=x])

lemma neighbors_unvisited:
  assumes "neighbors cols rows g x y = Inr ns" and "(nx, ny, w) \<in> set ns"
  shows "unvisited g ny nx = Inr True"
  using assms
  by (auto simp: neighbors_def guarded_def split: sum.splits if_splits)

definition mazeMeasure :: "mstate \<Rightarrow> nat" where
  "mazeMeasure s = 2 * unvisitedCount (maze s) + length (stack s)"

lemma mazeStep_decreases:
  assumes "mazeStep rnd cols rows s = Inr s'" and "stack s \<noteq> []"
  shows "mazeMeasure s' < mazeMeasure s"
proof -
  obtain cx cy where cur: "current s = (cx, cy)" by (cases "current s")
  from assms(1) cur obtain ns where ns: "neighbors cols rows (maze s) cx cy = Inr ns"
    by (auto simp: mazeStep_def split: sum.splits)
  show ?thesis
  proof (cases "length ns > 0")
    case False
    with assms cur ns show ?thesis
      by (auto simp: mazeStep_def mazeMeasure_def split: list.splits)
  next
    case True
    define k where "k = nat (randomInt rnd (randomCalls s) (int (length ns)))"
    have "k < length ns" using True
      by (simp add: k_def randomInt_def nat_mod_distrib)
    obtain nx ny w where nk: "ns ! k = (nx, ny, w)" by (cases "ns ! k")
    with \<open>k < length ns\<close> have mem: "(nx, ny, w) \<in> set ns" by (metis nth_mem)
    from assms(1) cur ns True nk obtain g1 g2 where
      g1: "removeWall (maze s) (cx, cy) (nx, ny, w) = Inr g1" and
      g2: "updCell g1 ny nx (\<lambda>c. c\<lparr>visited := True\<rparr>) = Inr g2" and
      s': "s' = \<lparr>maze = g2, stack = (cx, cy) # stack s, current = (nx, ny),
                randomCalls = randomCalls s + 1, carvings = carvings s + 1\<rparr>"
      by (auto simp: mazeStep_def k_def split: sum.splits)
    have "unvisited g1 ny nx = Inr True"
      using removeWall_unvisited[OF g1] neighbors_unvisited[OF ns mem] by simp
    from updCell_count_visit[OF g2 this] removeWall_count[OF g1]
    show ?thesis by (simp add: s' mazeMeasure_def)
  qed
qed

function mazeLoop :: "(nat \<Rightarrow> nat) \<Rightarrow> int \<Rightarrow> int \<Rightarrow> mstate \<Rightarrow> error + mstate" where
  "mazeLoop rnd cols rows s =
     (if stack s = [] then Inr s
      else (case mazeStep rnd cols rows s of
              Inl e \<Rightarrow> Inl e
            | Inr s' \<Rightarrow> mazeLoop rnd cols rows s'))"
  by pat_completeness auto
termination
  by (relation "measure (\<lambda>(rnd, cols, rows, s). mazeMeasure s)")
     (auto intro: mazeStep_decreases)

declare mazeLoop.simps [simp del]

definition initMaze :: "int \<Rightarrow> int \<Rightarrow> mgrid" where
  "initMaze cols rows =
     replicate (nat rows) (replicate (nat cols)
       \<lparr>topWall = True, rightWall = True, bottomWall = True, leftWall = True, visited = False\<rparr>)"

text \<open>Lines 59 to 117: the grid, the start cell, and the loop.\<close>

definition carveMaze :: "(nat \<Rightarrow> nat) \<Rightarrow> int \<Rightarrow> int \<Rightarrow> error + mstate" where
  "carveMaze rnd cols rows =
     (case updCell (initMaze cols rows) 0 0 (\<lambda>c. c\<lparr>visited := True\<rparr>) of
        Inl e \<Rightarrow> Inl e
      | Inr g \<Rightarrow>
          mazeLoop rnd cols rows
            \<lparr>maze = g, stack = [(0, 0)], current = (0, 0), randomCalls = 0, carvings = 0\<rparr>)"

text \<open>
  \<^verbatim>\<open>generateMaze\<close>: after the loop the entrance and the exit are opened (lines 119 to
  125); \<^verbatim>\<open>grid[rows - 1]\<close> is \<^verbatim>\<open>undefined\<close> for a negative index.
\<close>

definition generateMaze :: "(nat \<Rightarrow> nat) \<Rightarrow> int \<Rightarrow> int \<Rightarrow> error + mgrid" where
  "generateMaze rnd cols rows =
     (case carveMaze rnd cols rows of
        Inl e \<Rightarrow> Inl e
      | Inr s \<Rightarrow>
          (case updCell (maze s) 0 0 (\<lambda>c. c\<lparr>topWall := False\<rparr>) of
             Inl e \<Rightarrow> Inl e
           | Inr g \<Rightarrow>
               if rows - 1 < 0 \<or> cols - 1 < 0 then Inl TypeError
               else updCell g (nat (rows - 1)) (nat (cols - 1)) (\<lambda>c. c\<lparr>bottomWall := False\<rparr>)))"

section \<open>Notions used to state the properties\<close>

subsection \<open>Crossword\<close>

text \<open>The letter fields of a display row, for the keys \<open>0 .. length - 1\<close>.\<close>

definition rowLetters :: "displayCell jsarray \<Rightarrow> string option list" where
  "rowLetters r = map (\<lambda>k. map_option letter (at r (int k))) [0..<len r]"

text \<open>The cell of letter \<open>i\<close> of a word anchored at \<open>(r, c)\<close>.\<close>

definition wordCell :: "int \<Rightarrow> int \<Rightarrow> bool \<Rightarrow> nat \<Rightarrow> int \<times> int" where
  "wordCell r c vert i = (if vert then (r + int i, c) else (r, c + int i))"

text \<open>What the grid holds where letter \<open>i\<close> of a candidate would go.\<close>

definition occupant :: "cwgrid \<Rightarrow> int \<Rightarrow> int \<Rightarrow> bool \<Rightarrow> nat \<Rightarrow> error + char option" where
  "occupant g r c vert i = cellAt g (fst (wordCell r c vert i)) (snd (wordCell r c vert i))"

text \<open>The letter indices of a candidate whose cell does not hold \<^verbatim>\<open>'_'\<close>.\<close>

definition sharedIndices :: "cwgrid \<Rightarrow> string \<Rightarrow> int \<Rightarrow> int \<Rightarrow> bool \<Rightarrow> nat list" where
  "sharedIndices g word r c vert =
     filter (\<lambda>i. occupant g r c vert i \<noteq> Inr (Some blank)) [0..<length word]"

text \<open>A row of 15 cells with no other key; a grid of 15 such rows.\<close>

definition shapedRow :: "'a jsarray \<Rightarrow> bool" where
  "shapedRow rw \<longleftrightarrow> len rw = gridSize \<and> (\<forall>k. at rw k \<noteq> None \<longleftrightarrow> 0 \<le> k \<and> k < int gridSize)"

definition shaped :: "'a jsarray list \<Rightarrow> bool" where
  "shaped g \<longleftrightarrow> length g = gridSize \<and> (\<forall>rw\<in>set g. shapedRow rw)"

text \<open>The cells of a placed word, and whether some placed word covers a cell.\<close>

definition cellsOf :: "placedWord \<Rightarrow> (int \<times> int) list" where
  "cellsOf pw = map (wordCell (row pw) (col pw) (vertical pw)) [0..<length (wtext pw)]"

definition covered :: "placedWord list \<Rightarrow> int \<Rightarrow> int \<Rightarrow> bool" where
  "covered pws r c = list_ex (\<lambda>pw. (r, c) \<in> set (cellsOf pw)) pws"

text \<open>A placed word lies inside the grid.\<close>

definition inGrid :: "placedWord \<Rightarrow> bool" where
  "inGrid pw \<longleftrightarrow>
     0 \<le> row pw \<and> row pw < int gridSize \<and> 0 \<le> col pw \<and> col pw < int gridSize \<and>
     (if vertical pw then row pw + int (length (wtext pw)) \<le> int gridSize
      else col pw + int (length (wtext pw)) \<le> int gridSize)"

text \<open>
  The invariant of the placement loop: the grid has its shape, the placed words lie inside
  it and hold no \<^verbatim>\<open>'_'\<close>, every placed word reads off the grid, and every letter
  of the grid belongs to a placed word.
\<close>

definition cwInv :: "cwgrid \<Rightarrow> placedWord list \<Rightarrow> bool" where
  "cwInv g pws \<longleftrightarrow>
     shaped g \<and>
     (\<forall>pw\<in>set pws. inGrid pw \<and> blank \<notin> set (wtext pw)) \<and>
     (\<forall>pw\<in>set pws. \<forall>i<length (wtext pw).
        occupant g (row pw) (col pw) (vertical pw) i = Inr (Some (wtext pw ! i))) \<and>
     (\<forall>r c x. cellAt g r c = Inr (Some x) \<and> x \<noteq> blank \<longrightarrow> covered pws r c)"

text \<open>Two display grids agree on the fields \<open>letter\<close> and \<open>isBlack\<close>.\<close>

definition sameFill :: "displayCell jsarray list \<Rightarrow> displayCell jsarray list \<Rightarrow> bool" where
  "sameFill dg dg' \<longleftrightarrow>
     (\<forall>r c. map_sum id (map_option (\<lambda>x. (letter x, isBlack x))) (cellAt dg' r c) =
            map_sum id (map_option (\<lambda>x. (letter x, isBlack x))) (cellAt dg r c))"

subsection \<open>Word search\<close>

text \<open>
  The invariant of the placement loops: every placed word has one path point per letter,
  and the grid holds each letter of the word at its point.
\<close>

definition wsInv :: "wsgrid \<Rightarrow> placedEntry list \<Rightarrow> bool" where
  "wsInv g pws \<longleftrightarrow>
     (\<forall>p\<in>set pws. length (path p) = length (wword p) \<and>
        (\<forall>i<length (wword p).
           cellAt g (snd (path p ! i)) (fst (path p ! i)) = Inr (Some (wword p ! i))))"

section \<open>Crossword: the empty word list and the seed word\<close>

text \<open>
  C4. \<^verbatim>\<open>generateCrossword([])\<close> returns the object with an empty grid, no across clue
  and no down clue, and does not throw.
\<close>

theorem generateCrossword_empty:
  "generateCrossword [] = Inr \<lparr>grid = [], across = [], down = []\<rparr>"
  by (simp add: generateCrossword_def)

lemma noah_eval:
  "case generateCrossword [''NOAH''] of
     Inl e \<Rightarrow> False
   | Inr r \<Rightarrow>
       map rowLetters (grid r) =
         replicate 7 (replicate 15 (Some [])) @
         [replicate 5 (Some []) @ [Some ''N'', Some ''O'', Some ''A'', Some ''H''] @
          replicate 6 (Some [])] @
         replicate 7 (replicate 15 (Some [])) \<and>
       map_option (\<lambda>c. (hasNumber c, number c)) (at (grid r ! 7) 5) = Some (True, Some 1) \<and>
       across r = [(1, ''Built the big boat'')] \<and> down r = []"
  by code_simp

text \<open>
  C7. \<^verbatim>\<open>generateCrossword(["NOAH"])\<close> returns a grid with NOAH written across on row
  \<open>\<lfloor>15 / 2\<rfloor> = 7\<close> from column \<open>\<lfloor>(15 - 4) / 2\<rfloor> = 5\<close> and every other cell empty;
  the anchor cell carries the number 1, there is exactly one across clue, numbered 1, and
  no down clue.
\<close>

theorem noah_seed:
  "\<exists>r. generateCrossword [''NOAH''] = Inr r \<and>
       map rowLetters (grid r) =
         replicate 7 (replicate 15 (Some [])) @
         [replicate 5 (Some []) @ [Some ''N'', Some ''O'', Some ''A'', Some ''H''] @
          replicate 6 (Some [])] @
         replicate 7 (replicate 15 (Some [])) \<and>
       map_option (\<lambda>c. (hasNumber c, number c)) (at (grid r ! 7) 5) = Some (True, Some 1) \<and>
       across r = [(1, ''Built the big boat'')] \<and> down r = []"
proof (cases "generateCrossword [''NOAH'']")
  case (Inl e)
  with noah_eval show ?thesis by simp
next
  case (Inr r)
  with noah_eval show ?thesis by (intro exI[of _ r]) (simp only: sum.case simp_thms)
qed

section \<open>Crossword: grid access\<close>

lemma rowAt_Some: "rowAt g r = Some rw \<longleftrightarrow> 0 \<le> r \<and> r < int (length g) \<and> rw = g ! nat r"
  by (auto simp: rowAt_def)

lemma rowAt_None: "rowAt g r = None \<longleftrightarrow> \<not> (0 \<le> r \<and> r < int (length g))"
  by (auto simp: rowAt_def)

lemma setCell_Inr:
  "setCell g r c v = Inr g' \<longleftrightarrow> 0 \<le> r \<and> r < int (length g) \<and> g' = g[nat r := aset (g ! nat r) c v]"
  by (auto simp: setCell_def rowAt_def)

lemma setCell_length: "setCell g r c v = Inr g' \<Longrightarrow> length g' = length g"
  by (auto simp: setCell_Inr)

lemma cellAt_setCell:
  assumes "setCell g r c v = Inr g'"
  shows "cellAt g' r' c' = (if r' = r \<and> c' = c then Inr (Some v) else cellAt g r' c')"
proof -
  from assms have r: "0 \<le> r" "r < int (length g)" and g': "g' = g[nat r := aset (g ! nat r) c v]"
    by (auto simp: setCell_Inr)
  show ?thesis
  proof (cases "0 \<le> r' \<and> r' < int (length g)")
    case False
    then show ?thesis using r by (auto simp: cellAt_def rowAt_def g')
  next
    case True
    show ?thesis
    proof (cases "r' = r")
      case True
      then show ?thesis using r by (simp add: cellAt_def rowAt_def g' aset_def)
    next
      case False
      with True r have "nat r' \<noteq> nat r" by linarith
      then show ?thesis using True False by (simp add: cellAt_def rowAt_def g')
    qed
  qed
qed

lemma wordCell_inj: "wordCell r c vert i = wordCell r c vert j \<Longrightarrow> i = j"
  by (auto simp: wordCell_def split: if_splits)

lemma writeLetters_step:
  "writeLetters g word r c vert (i # is) =
     (case setCell g (fst (wordCell r c vert i)) (snd (wordCell r c vert i)) (word ! i) of
        Inl e \<Rightarrow> Inl e | Inr g' \<Rightarrow> writeLetters g' word r c vert is)"
  by (simp add: wordCell_def)

lemma writeLetters_length:
  "writeLetters g word r c vert is = Inr g' \<Longrightarrow> length g' = length g"
proof (induction "is" arbitrary: g)
  case Nil then show ?case by simp
next
  case (Cons i "is")
  then show ?case
    by (auto simp: writeLetters_step simp del: writeLetters.simps split: sum.splits dest: setCell_length)
qed

lemma writeLetters_other:
  assumes "writeLetters g word r c vert is = Inr g'"
    and "\<forall>i\<in>set is. wordCell r c vert i \<noteq> (r', c')"
  shows "cellAt g' r' c' = cellAt g r' c'"
  using assms
proof (induction "is" arbitrary: g)
  case Nil then show ?case by simp
next
  case (Cons i "is")
  from Cons.prems(1) obtain g1 where
    g1: "setCell g (fst (wordCell r c vert i)) (snd (wordCell r c vert i)) (word ! i) = Inr g1"
    and rest: "writeLetters g1 word r c vert is = Inr g'"
    by (auto simp: writeLetters_step simp del: writeLetters.simps split: sum.splits)
  from Cons.prems(2) have ne: "wordCell r c vert i \<noteq> (r', c')" and
    ne': "\<forall>i\<in>set is. wordCell r c vert i \<noteq> (r', c')" by auto
  have "cellAt g' r' c' = cellAt g1 r' c'" using Cons.IH[OF rest ne'] .
  also have "\<dots> = cellAt g r' c'"
    using ne by (auto simp: cellAt_setCell[OF g1])
  finally show ?case .
qed

lemma writeLetters_written:
  assumes "writeLetters g word r c vert is = Inr g'" and "i \<in> set is"
  shows "cellAt g' (fst (wordCell r c vert i)) (snd (wordCell r c vert i)) = Inr (Some (word ! i))"
  using assms
proof (induction "is" arbitrary: g)
  case Nil then show ?case by simp
next
  case (Cons j "is")
  from Cons.prems(1) obtain g1 where
    g1: "setCell g (fst (wordCell r c vert j)) (snd (wordCell r c vert j)) (word ! j) = Inr g1"
    and rest: "writeLetters g1 word r c vert is = Inr g'"
    by (auto simp: writeLetters_step simp del: writeLetters.simps split: sum.splits)
  show ?case
  proof (cases "i \<in> set is")
    case True
    then show ?thesis using Cons.IH[OF rest] by simp
  next
    case False
    with Cons.prems(2) have ij: "i = j" by simp
    have "\<forall>k\<in>set is. wordCell r c vert k \<noteq> (fst (wordCell r c vert i), snd (wordCell r c vert i))"
      using False wordCell_inj by fastforce
    from writeLetters_other[OF rest this]
    show ?thesis by (simp add: cellAt_setCell[OF g1] ij)
  qed
qed

lemma writeLetters_ok:
  assumes "\<forall>i\<in>set is. 0 \<le> fst (wordCell r c vert i) \<and> fst (wordCell r c vert i) < int (length g)"
  shows "\<exists>g'. writeLetters g word r c vert is = Inr g'"
  using assms
proof (induction "is" arbitrary: g)
  case Nil then show ?case by simp
next
  case (Cons i "is")
  let ?g1 = "g[nat (fst (wordCell r c vert i)) := aset (g ! nat (fst (wordCell r c vert i))) (snd (wordCell r c vert i)) (word ! i)]"
  from Cons.prems have s: "setCell g (fst (wordCell r c vert i)) (snd (wordCell r c vert i)) (word ! i) = Inr ?g1"
    by (simp add: setCell_Inr)
  have "\<forall>i\<in>set is. 0 \<le> fst (wordCell r c vert i) \<and> fst (wordCell r c vert i) < int (length ?g1)"
    using Cons.prems by simp
  from Cons.IH[OF this] show ?case
    by (simp add: writeLetters_step s del: writeLetters.simps)
qed

lemma canPlaceVertical_Cons_True:
  assumes "canPlaceVertical g word r c (i # is) = Inr True"
  shows "(cellAt g (r + int i) c = Inr (Some blank) \<or> cellAt g (r + int i) c = Inr (Some (word ! i)))
         \<and> canPlaceVertical g word r c is = Inr True"
  using assms
  by (auto simp: Let_def simp del: firstOf.simps split: sum.splits if_splits bool.splits)

lemma canPlaceHorizontal_Cons_True:
  assumes "canPlaceHorizontal g word r c (i # is) = Inr True"
  shows "(cellAt g r (c + int i) = Inr (Some blank) \<or> cellAt g r (c + int i) = Inr (Some (word ! i)))
         \<and> canPlaceHorizontal g word r c is = Inr True"
  using assms
  by (auto simp: Let_def simp del: firstOf.simps split: sum.splits if_splits bool.splits)

lemma canPlaceVertical_agree:
  "canPlaceVertical g word r c is = Inr True \<Longrightarrow> i \<in> set is \<Longrightarrow>
   cellAt g (r + int i) c = Inr (Some blank) \<or> cellAt g (r + int i) c = Inr (Some (word ! i))"
proof (induction "is")
  case Nil then show ?case by simp
next
  case (Cons j "is")
  from canPlaceVertical_Cons_True[OF Cons.prems(1)] Cons.IH Cons.prems(2)
  show ?case by auto
qed

lemma canPlaceHorizontal_agree:
  "canPlaceHorizontal g word r c is = Inr True \<Longrightarrow> i \<in> set is \<Longrightarrow>
   cellAt g r (c + int i) = Inr (Some blank) \<or> cellAt g r (c + int i) = Inr (Some (word ! i))"
proof (induction "is")
  case Nil then show ?case by simp
next
  case (Cons j "is")
  from canPlaceHorizontal_Cons_True[OF Cons.prems(1)] Cons.IH Cons.prems(2)
  show ?case by auto
qed

lemma canPlaceWord_agree:
  assumes "canPlaceWord g word r c vert = Inr True" and "i < length word"
  shows "occupant g r c vert i = Inr (Some blank) \<or> occupant g r c vert i = Inr (Some (word ! i))"
proof (cases vert)
  case True
  with assms(1) have "canPlaceVertical g word r c [0..<length word] = Inr True"
    by (simp add: canPlaceWord_def Let_def split: if_splits)
  from canPlaceVertical_agree[OF this, of i] assms(2) True
  show ?thesis by (simp add: occupant_def wordCell_def)
next
  case False
  with assms(1) have "canPlaceHorizontal g word r c [0..<length word] = Inr True"
    by (simp add: canPlaceWord_def Let_def split: if_splits)
  from canPlaceHorizontal_agree[OF this, of i] assms(2) False
  show ?thesis by (simp add: occupant_def wordCell_def)
qed

lemma canPlaceWord_bounds:
  assumes "canPlaceWord g word r c vert = Inr True"
  shows "if vert then 0 \<le> r \<and> r + int (length word) \<le> int (length g)
         else 0 \<le> c \<and> c + int (length word) \<le> int (length g)"
  using assms by (simp add: canPlaceWord_def Let_def split: if_splits)

text \<open>The search returns only candidates that \<open>canPlaceWord\<close> accepted.\<close>

lemma scanLetters_Some:
  "scanLetters g word i pw js = Inr (Some p) \<Longrightarrow>
   \<exists>j\<in>set js. p = candidate pw i j \<and> wtext pw ! j = word ! i \<and>
     canPlaceWord g word (fst p) (fst (snd p)) (snd (snd p)) = Inr True"
proof (induction js)
  case Nil then show ?case by simp
next
  case (Cons j js)
  show ?case
  proof (cases "wtext pw ! j = word ! i \<and>
      canPlaceWord g word (fst (candidate pw i j)) (fst (snd (candidate pw i j)))
        (snd (snd (candidate pw i j))) = Inr True")
    case True
    with Cons.prems have "p = candidate pw i j"
      by (cases "candidate pw i j") (auto split: sum.splits bool.splits)
    with True show ?thesis by auto
  next
    case False
    with Cons.prems have "scanLetters g word i pw js = Inr (Some p)"
      by (cases "candidate pw i j") (auto split: sum.splits bool.splits if_splits)
    from Cons.IH[OF this] show ?thesis by auto
  qed
qed

lemma scanPlaced_Some:
  "scanPlaced g word i pws = Inr (Some p) \<Longrightarrow>
   \<exists>pw\<in>set pws. \<exists>j<length (wtext pw). p = candidate pw i j \<and> wtext pw ! j = word ! i \<and>
     canPlaceWord g word (fst p) (fst (snd p)) (snd (snd p)) = Inr True"
proof (induction pws)
  case Nil then show ?case by simp
next
  case (Cons pw pws)
  show ?case
  proof (cases "scanLetters g word i pw [0..<length (wtext pw)]")
    case (Inl e)
    with Cons.prems show ?thesis by simp
  next
    case (Inr res)
    show ?thesis
    proof (cases res)
      case None
      with Inr Cons.prems have "scanPlaced g word i pws = Inr (Some p)" by simp
      from Cons.IH[OF this] show ?thesis by auto
    next
      case (Some q)
      with Inr Cons.prems have "scanLetters g word i pw [0..<length (wtext pw)] = Inr (Some p)" by simp
      from scanLetters_Some[OF this] show ?thesis by auto
    qed
  qed
qed

lemma scanWord_Some:
  "scanWord g word pws is = Inr (Some p) \<Longrightarrow>
   \<exists>i\<in>set is. \<exists>pw\<in>set pws. \<exists>j<length (wtext pw). p = candidate pw i j \<and> wtext pw ! j = word ! i \<and>
     canPlaceWord g word (fst p) (fst (snd p)) (snd (snd p)) = Inr True"
proof (induction "is")
  case Nil then show ?case by simp
next
  case (Cons i "is")
  show ?case
  proof (cases "scanPlaced g word i pws")
    case (Inl e)
    with Cons.prems show ?thesis by simp
  next
    case (Inr res)
    show ?thesis
    proof (cases res)
      case None
      with Inr Cons.prems have "scanWord g word pws is = Inr (Some p)" by simp
      from Cons.IH[OF this] show ?thesis by auto
    next
      case (Some q)
      with Inr Cons.prems have "scanPlaced g word i pws = Inr (Some p)" by simp
      from scanPlaced_Some[OF this] show ?thesis by auto
    qed
  qed
qed

lemma placeNext_cases:
  assumes "placeNext (g, pws) word = Inr (g', pws')"
  shows "(g' = g \<and> pws' = pws) \<or>
         (\<exists>r c v. pws' = pws @ [\<lparr>wtext = word, row = r, col = c, vertical = v\<rparr>] \<and>
            scanWord g word pws [0..<length word] = Inr (Some (r, c, v)) \<and>
            placeWord g word r c v = Inr g')"
  using assms
  by (auto simp: placeNext_def split: sum.splits option.splits prod.splits)

text \<open>
  C3, as the code has it. When the loop of \<^verbatim>\<open>generateCrossword\<close> places a word, the
  placement is one that \<^verbatim>\<open>canPlaceWord\<close> accepted on the grid before the writes, and
  every cell of it that was occupied held exactly the letter the word puts there; the
  number of such cells is not bounded by one. \<^verbatim>\<open>canPlaceWord\<close> rejects every candidate
  with a cell that holds a different letter.
\<close>

theorem accepted_placement_agrees:
  assumes "placeNext (g, pws) word = Inr (g', pws')" and "pws' \<noteq> pws"
  shows "(\<exists>r c v. pws' = pws @ [\<lparr>wtext = word, row = r, col = c, vertical = v\<rparr>] \<and>
           canPlaceWord g word r c v = Inr True \<and> placeWord g word r c v = Inr g' \<and>
           (\<forall>i<length word. occupant g r c v i = Inr (Some blank) \<or>
                              occupant g r c v i = Inr (Some (word ! i)))) \<and>
         (\<forall>r c v i x. i < length word \<and> occupant g r c v i = Inr (Some x) \<and> x \<noteq> blank \<and>
                       x \<noteq> word ! i \<longrightarrow> canPlaceWord g word r c v \<noteq> Inr True)"
proof
  from placeNext_cases[OF assms(1)] assms(2) obtain r c v where
    pws': "pws' = pws @ [\<lparr>wtext = word, row = r, col = c, vertical = v\<rparr>]" and
    scan: "scanWord g word pws [0..<length word] = Inr (Some (r, c, v))" and
    place: "placeWord g word r c v = Inr g'"
    by auto
  from scanWord_Some[OF scan] have ok: "canPlaceWord g word r c v = Inr True" by auto
  from canPlaceWord_agree[OF ok] pws' ok place
  show "\<exists>r c v. pws' = pws @ [\<lparr>wtext = word, row = r, col = c, vertical = v\<rparr>] \<and>
           canPlaceWord g word r c v = Inr True \<and> placeWord g word r c v = Inr g' \<and>
           (\<forall>i<length word. occupant g r c v i = Inr (Some blank) \<or>
                              occupant g r c v i = Inr (Some (word ! i)))"
    by blast
  show "\<forall>r c v i x. i < length word \<and> occupant g r c v i = Inr (Some x) \<and> x \<noteq> blank \<and>
                     x \<noteq> word ! i \<longrightarrow> canPlaceWord g word r c v \<noteq> Inr True"
    using canPlaceWord_agree by fastforce
qed

lemma ark_eval:
  "case placeWords [''NOAH''] of
     Inl e \<Rightarrow> False
   | Inr s \<Rightarrow>
       (case placeNext s ''ARK'' of
          Inl e \<Rightarrow> False
        | Inr s' \<Rightarrow>
            snd s = [\<lparr>wtext = ''NOAH'', row = 7, col = 5, vertical = False\<rparr>] \<and>
            snd s' = snd s @ [\<lparr>wtext = ''ARK'', row = 7, col = 7, vertical = True\<rparr>] \<and>
            occupant (fst s) 7 7 True 0 = Inr (Some CHR ''A''))"
  by code_simp

text \<open>The theorem at ARK crossing NOAH on the letter A.\<close>

theorem accepted_placement_agrees_witness:
  "\<exists>g pws g' pws'.
     placeWords [''NOAH''] = Inr (g, pws) \<and> placeNext (g, pws) ''ARK'' = Inr (g', pws') \<and>
     pws' \<noteq> pws \<and>
     pws' = pws @ [\<lparr>wtext = ''ARK'', row = 7, col = 7, vertical = True\<rparr>] \<and>
     canPlaceWord g ''ARK'' 7 7 True = Inr True \<and>
     occupant g 7 7 True 0 = Inr (Some (''ARK'' ! 0))"
proof -
  obtain g pws where s: "placeWords [''NOAH''] = Inr (g, pws)"
    using ark_eval by (cases "placeWords [''NOAH'']") auto
  obtain g' pws' where s': "placeNext (g, pws) ''ARK'' = Inr (g', pws')"
    using ark_eval s by (cases "placeNext (g, pws) ''ARK''") auto
  from ark_eval s s' have
    pws': "pws' = pws @ [\<lparr>wtext = ''ARK'', row = 7, col = 7, vertical = True\<rparr>]" and
    occ: "occupant g 7 7 True 0 = Inr (Some CHR ''A'')" by simp_all
  from pws' have ne: "pws' \<noteq> pws" by simp
  from accepted_placement_agrees[OF s' ne] obtain r c v where
    e: "pws' = pws @ [\<lparr>wtext = ''ARK'', row = r, col = c, vertical = v\<rparr>]" and
    ok: "canPlaceWord g ''ARK'' r c v = Inr True" by blast
  from e pws' have "r = 7" "c = 7" "v = True" by simp_all
  with ok s s' ne pws' occ show ?thesis by simp
qed

text \<open>
  C3 as stated fails: after ABC, AXD and DEF the word CYF is accepted and placed down
  column 8 from row 7, where its first and its last cell are both occupied already.
\<close>

theorem two_shared_cells_counterexample:
  "map_sum id snd (placeWords [''ABC'', ''AXD'', ''DEF'', ''CYF'']) =
     Inr [\<lparr>wtext = ''ABC'', row = 7, col = 6, vertical = False\<rparr>,
          \<lparr>wtext = ''AXD'', row = 7, col = 6, vertical = True\<rparr>,
          \<lparr>wtext = ''DEF'', row = 9, col = 6, vertical = False\<rparr>,
          \<lparr>wtext = ''CYF'', row = 7, col = 8, vertical = True\<rparr>] \<and>
   map_sum id (\<lambda>s. canPlaceWord (fst s) ''CYF'' 7 8 True) (placeWords [''ABC'', ''AXD'', ''DEF''])
     = Inr (Inr True) \<and>
   map_sum id (\<lambda>s. sharedIndices (fst s) ''CYF'' 7 8 True) (placeWords [''ABC'', ''AXD'', ''DEF''])
     = Inr [0, 2]"
  by code_simp

section \<open>Shape of the letter grid\<close>

lemma shapedRow_aset:
  assumes "shapedRow rw" and "0 \<le> c" and "c < int gridSize"
  shows "shapedRow (aset rw c v)"
  using assms by (auto simp: shapedRow_def aset_def)

lemma shaped_setCell:
  assumes "shaped g" and "setCell g r c v = Inr g'" and "0 \<le> c" and "c < int gridSize"
  shows "shaped g'"
proof -
  from assms(2) have r: "0 \<le> r" "r < int (length g)" and g': "g' = g[nat r := aset (g ! nat r) c v]"
    by (auto simp: setCell_Inr)
  from r have "nat r < length g" by linarith
  then have "g ! nat r \<in> set g" by simp
  with assms(1) have "shapedRow (g ! nat r)" by (simp add: shaped_def)
  from shapedRow_aset[OF this assms(3,4)] have "shapedRow (aset (g ! nat r) c v)" .
  moreover have "set g' \<subseteq> insert (aset (g ! nat r) c v) (set g)"
    unfolding g' by (rule set_update_subset_insert)
  ultimately show ?thesis using assms(1) by (auto simp: shaped_def g')
qed

lemma shaped_writeLetters:
  assumes "shaped g" and "writeLetters g word r c vert is = Inr g'"
    and "\<forall>i\<in>set is. 0 \<le> snd (wordCell r c vert i) \<and> snd (wordCell r c vert i) < int gridSize"
  shows "shaped g'"
  using assms
proof (induction "is" arbitrary: g)
  case Nil then show ?case by simp
next
  case (Cons i "is")
  from Cons.prems(2) obtain g1 where
    g1: "setCell g (fst (wordCell r c vert i)) (snd (wordCell r c vert i)) (word ! i) = Inr g1"
    and rest: "writeLetters g1 word r c vert is = Inr g'"
    by (auto simp: writeLetters_step simp del: writeLetters.simps split: sum.splits)
  from Cons.prems(3) have c: "0 \<le> snd (wordCell r c vert i)" "snd (wordCell r c vert i) < int gridSize"
    and cs: "\<forall>i\<in>set is. 0 \<le> snd (wordCell r c vert i) \<and> snd (wordCell r c vert i) < int gridSize"
    by auto
  from shaped_setCell[OF Cons.prems(1) g1 c] have "shaped g1" .
  from Cons.IH[OF this rest cs] show ?case .
qed

lemma shaped_cellAt:
  assumes "shaped g"
  shows "cellAt g r c \<noteq> Inl TypeError \<longleftrightarrow> 0 \<le> r \<and> r < int gridSize"
    and "(\<exists>x. cellAt g r c = Inr (Some x)) \<longleftrightarrow> 0 \<le> r \<and> r < int gridSize \<and> 0 \<le> c \<and> c < int gridSize"
proof -
  from assms have l: "length g = gridSize" by (simp add: shaped_def)
  show "cellAt g r c \<noteq> Inl TypeError \<longleftrightarrow> 0 \<le> r \<and> r < int gridSize"
    by (auto simp: cellAt_def rowAt_def l)
  show "(\<exists>x. cellAt g r c = Inr (Some x)) \<longleftrightarrow> 0 \<le> r \<and> r < int gridSize \<and> 0 \<le> c \<and> c < int gridSize"
  proof (cases "0 \<le> r \<and> r < int gridSize")
    case False
    then show ?thesis by (auto simp: cellAt_def rowAt_def l)
  next
    case True
    then have "nat r < length g" using l by linarith
    then have "g ! nat r \<in> set g" by simp
    with assms have "shapedRow (g ! nat r)" by (simp add: shaped_def)
    then have "at (g ! nat r) c \<noteq> None \<longleftrightarrow> 0 \<le> c \<and> c < int gridSize"
      by (simp add: shapedRow_def)
    then show ?thesis using True by (auto simp: cellAt_def rowAt_def l)
  qed
qed

lemma shaped_emptyGrid: "shaped emptyGrid"
  by (auto simp: shaped_def shapedRow_def emptyGrid_def newArray_def)

lemma cellAt_emptyGrid:
  "cellAt emptyGrid r c = Inr (Some x) \<Longrightarrow> x = blank"
  by (auto simp: cellAt_def rowAt_def emptyGrid_def newArray_def split: if_splits)

section \<open>Invariant of the placement loop\<close>

lemma covered_iff:
  "covered pws r c \<longleftrightarrow>
   (\<exists>pw\<in>set pws. \<exists>i<length (wtext pw). wordCell (row pw) (col pw) (vertical pw) i = (r, c))"
proof -
  have "(r, c) \<in> set (cellsOf pw) \<longleftrightarrow>
        (\<exists>i<length (wtext pw). wordCell (row pw) (col pw) (vertical pw) i = (r, c))" for pw
    unfolding cellsOf_def set_map set_upt image_iff by (metis atLeastLessThan_iff zero_le)
  then show ?thesis by (simp add: covered_def list_ex_iff)
qed

lemma covered_append: "covered (pws @ qs) r c \<longleftrightarrow> covered pws r c \<or> covered qs r c"
  by (auto simp: covered_def)

lemma placeWord_inv:
  assumes inv: "cwInv g pws"
    and ok: "canPlaceWord g word r c v = Inr True"
    and place: "placeWord g word r c v = Inr g'"
    and nb: "blank \<notin> set word" and ne: "word \<noteq> []"
  shows "cwInv g' (pws @ [\<lparr>wtext = word, row = r, col = c, vertical = v\<rparr>])"
proof -
  let ?new = "\<lparr>wtext = word, row = r, col = c, vertical = v\<rparr>"
  let ?cell = "wordCell r c v"
  from inv have sh: "shaped g" by (simp add: cwInv_def)
  from place have wl: "writeLetters g word r c v [0..<length word] = Inr g'"
    by (simp add: placeWord_def)
  have agree: "occupant g r c v i = Inr (Some blank) \<or> occupant g r c v i = Inr (Some (word ! i))"
    if "i < length word" for i using canPlaceWord_agree[OF ok that] .
  have range: "0 \<le> fst (?cell i) \<and> fst (?cell i) < int gridSize \<and>
               0 \<le> snd (?cell i) \<and> snd (?cell i) < int gridSize" if "i < length word" for i
  proof -
    from agree[OF that] have "\<exists>x. cellAt g (fst (?cell i)) (snd (?cell i)) = Inr (Some x)"
      by (auto simp: occupant_def)
    with shaped_cellAt(2)[OF sh] show ?thesis by blast
  qed
  have sh': "shaped g'"
    using shaped_writeLetters[OF sh wl] range by simp
  have written: "cellAt g' (fst (?cell i)) (snd (?cell i)) = Inr (Some (word ! i))"
    if "i < length word" for i
    using writeLetters_written[OF wl, of i] that by simp
  have other: "cellAt g' r' c' = cellAt g r' c'"
    if "\<forall>i<length word. ?cell i \<noteq> (r', c')" for r' c'
    using writeLetters_other[OF wl, of r' c'] that by simp
  have in_new: "inGrid ?new"
  proof -
    from ne have "0 < length word" by simp
    from range[OF this] have "0 \<le> r \<and> r < int gridSize \<and> 0 \<le> c \<and> c < int gridSize"
      by (simp add: wordCell_def split: if_splits)
    moreover from sh have "length g = gridSize" by (simp add: shaped_def)
    ultimately show ?thesis using canPlaceWord_bounds[OF ok]
      by (simp add: inGrid_def split: if_splits)
  qed
  have p2: "\<forall>pw\<in>set (pws @ [?new]). inGrid pw \<and> blank \<notin> set (wtext pw)"
    using inv in_new nb by (auto simp: cwInv_def)
  have p3: "occupant g' (row pw) (col pw) (vertical pw) i = Inr (Some (wtext pw ! i))"
    if pw: "pw \<in> set (pws @ [?new])" and i: "i < length (wtext pw)" for pw i
  proof (cases "pw \<in> set pws")
    case False
    with pw have "pw = ?new" by simp
    with written[of i] i show ?thesis by (simp add: occupant_def)
  next
    case True
    let ?p = "wordCell (row pw) (col pw) (vertical pw) i"
    from inv True i have old: "cellAt g (fst ?p) (snd ?p) = Inr (Some (wtext pw ! i))"
      by (simp add: cwInv_def occupant_def)
    from inv True have "blank \<notin> set (wtext pw)" by (simp add: cwInv_def)
    with i have nbl: "wtext pw ! i \<noteq> blank" by (metis nth_mem)
    show ?thesis
    proof (cases "\<exists>k<length word. ?cell k = ?p")
      case True
      then obtain k where k: "k < length word" and eq: "?cell k = ?p" by blast
      from agree[OF k] old eq nbl have "word ! k = wtext pw ! i"
        by (auto simp: occupant_def)
      with written[OF k] eq show ?thesis by (simp add: occupant_def)
    next
      case False
      then have "\<forall>k<length word. ?cell k \<noteq> (fst ?p, snd ?p)" by simp
      from other[OF this] old show ?thesis by (simp add: occupant_def)
    qed
  qed
  have p4: "covered (pws @ [?new]) r' c'"
    if "cellAt g' r' c' = Inr (Some x)" and "x \<noteq> blank" for r' c' x
  proof (cases "\<exists>k<length word. ?cell k = (r', c')")
    case True
    then have "covered [?new] r' c'" by (auto simp: covered_iff)
    then show ?thesis by (simp add: covered_append)
  next
    case False
    then have "\<forall>k<length word. ?cell k \<noteq> (r', c')" by simp
    from other[OF this] that have "cellAt g r' c' = Inr (Some x)" by simp
    with inv that(2) have "covered pws r' c'" by (auto simp: cwInv_def)
    then show ?thesis by (simp add: covered_append)
  qed
  show ?thesis
    unfolding cwInv_def using sh' p2 p3 p4 by blast
qed

section \<open>The search raises no error on a well-formed state\<close>

lemma cellAt_isl: "isl (cellAt g r c) \<longleftrightarrow> \<not> (0 \<le> r \<and> r < int (length g))"
  by (auto simp: cellAt_def rowAt_def)

lemma notBlank_isl: "isl (notBlank g r c) \<longleftrightarrow> \<not> (0 \<le> r \<and> r < int (length g))"
  by (auto simp: notBlank_def cellAt_def rowAt_def)

lemma guarded_isl: "isl (guarded b m) \<longleftrightarrow> b \<and> isl m"
  by (simp add: guarded_def)

lemma firstOf_isl: "\<forall>m\<in>set ms. \<not> isl m \<Longrightarrow> \<not> isl (firstOf ms)"
proof (induction ms)
  case Nil then show ?case by simp
next
  case (Cons m ms)
  then show ?case by (cases m) (auto split: bool.splits)
qed

lemma case_firstOf_isl:
  "\<not> isl (firstOf ms) \<Longrightarrow> \<not> isl k \<Longrightarrow>
   isl (case firstOf ms of Inl e \<Rightarrow> Inl e | Inr True \<Rightarrow> Inr False | Inr False \<Rightarrow> k) = False"
  by (cases "firstOf ms") (auto split: bool.splits)

lemma canPlaceVertical_isl:
  assumes "0 \<le> r" and "\<forall>i\<in>set is. r + int i < int (length g)"
  shows "\<not> isl (canPlaceVertical g word r c is)"
  using assms(2)
proof (induction "is")
  case Nil then show ?case by simp
next
  case (Cons i "is")
  from Cons.prems have i: "r + int i < int (length g)" and
    IH: "\<not> isl (canPlaceVertical g word r c is)" using Cons.IH by auto
  from assms(1) i obtain cell where cell: "cellAt g (r + int i) c = Inr cell"
    by (cases "cellAt g (r + int i) c") (use cellAt_isl[of g "r + int i" c] in auto)
  let ?checks = "[guarded (c > 0) (notBlank g (r + int i) (c - 1)),
                  guarded (c < int (length g) - 1) (notBlank g (r + int i) (c + 1)),
                  guarded (int i = 0 \<and> r > 0) (notBlank g (r - 1) c),
                  guarded (int i = int (length word) - 1 \<and> r + int (length word) < int (length g))
                    (notBlank g (r + int (length word)) c)]"
  have "\<forall>m\<in>set ?checks. \<not> isl m"
    using assms(1) i by (auto simp: guarded_isl notBlank_isl)
  from firstOf_isl[OF this] have fo: "\<not> isl (firstOf ?checks)" .
  show ?case using IH fo
    by (simp add: Let_def cell case_firstOf_isl del: firstOf.simps)
qed

lemma canPlaceHorizontal_isl:
  assumes "0 \<le> r" and "r < int (length g)"
  shows "\<not> isl (canPlaceHorizontal g word r c is)"
proof (induction "is")
  case Nil then show ?case by simp
next
  case (Cons i "is")
  from assms obtain cell where cell: "cellAt g r (c + int i) = Inr cell"
    by (cases "cellAt g r (c + int i)") (use cellAt_isl[of g r "c + int i"] in auto)
  let ?checks = "[guarded (r > 0) (notBlank g (r - 1) (c + int i)),
                  guarded (r < int (length g) - 1) (notBlank g (r + 1) (c + int i)),
                  guarded (int i = 0 \<and> c > 0) (notBlank g r (c - 1)),
                  guarded (int i = int (length word) - 1 \<and> c + int (length word) < int (length g))
                    (notBlank g r (c + int (length word)))]"
  have "\<forall>m\<in>set ?checks. \<not> isl m"
    using assms by (auto simp: guarded_isl notBlank_isl)
  from firstOf_isl[OF this] have fo: "\<not> isl (firstOf ?checks)" .
  show ?case using Cons.IH fo
    by (simp add: Let_def cell case_firstOf_isl del: firstOf.simps)
qed

lemma canPlaceWord_isl:
  assumes "\<not> vert \<longrightarrow> 0 \<le> r \<and> r < int (length g)"
  shows "\<not> isl (canPlaceWord g word r c vert)"
proof (cases vert)
  case True
  show ?thesis
  proof (cases "r < 0 \<or> r + int (length word) > int (length g)")
    case True
    with \<open>vert\<close> show ?thesis by (simp add: canPlaceWord_def Let_def)
  next
    case False
    then have "0 \<le> r" and "\<forall>i\<in>set [0..<length word]. r + int i < int (length g)" by auto
    from canPlaceVertical_isl[OF this] False \<open>vert\<close> show ?thesis
      by (simp add: canPlaceWord_def Let_def)
  qed
next
  case False
  with assms have "0 \<le> r" "r < int (length g)" by auto
  from canPlaceHorizontal_isl[OF this] False show ?thesis
    by (simp add: canPlaceWord_def Let_def)
qed

lemma candidate_row:
  assumes "inGrid pw" and "j < length (wtext pw)" and "candidate pw i j = (r, c, v)"
  shows "\<not> v \<longrightarrow> 0 \<le> r \<and> r < int gridSize"
  using assms by (auto simp: candidate_def inGrid_def split: if_splits)

lemma scanLetters_isl:
  assumes "inGrid pw" and "length g = gridSize" and "\<forall>j\<in>set js. j < length (wtext pw)"
  shows "\<not> isl (scanLetters g word i pw js)"
  using assms(3)
proof (induction js)
  case Nil then show ?case by simp
next
  case (Cons j js)
  then have j: "j < length (wtext pw)" and IH: "\<not> isl (scanLetters g word i pw js)" by auto
  obtain r c v where cand: "candidate pw i j = (r, c, v)" by (cases "candidate pw i j")
  from candidate_row[OF assms(1) j cand] assms(2)
  have "\<not> v \<longrightarrow> 0 \<le> r \<and> r < int (length g)" by simp
  from canPlaceWord_isl[OF this, where word=word and c=c]
  obtain b where "canPlaceWord g word r c v = Inr b"
    by (cases "canPlaceWord g word r c v") auto
  with IH cand show ?case by (simp split: bool.splits)
qed

lemma scanPlaced_isl:
  assumes "\<forall>pw\<in>set pws. inGrid pw" and "length g = gridSize"
  shows "\<not> isl (scanPlaced g word i pws)"
  using assms(1)
proof (induction pws)
  case Nil then show ?case by simp
next
  case (Cons pw pws)
  then have "inGrid pw" and IH: "\<not> isl (scanPlaced g word i pws)" by auto
  from scanLetters_isl[OF this(1) assms(2), of "[0..<length (wtext pw)]" word i]
  obtain res where "scanLetters g word i pw [0..<length (wtext pw)] = Inr res"
    by (cases "scanLetters g word i pw [0..<length (wtext pw)]") auto
  with IH show ?case by (simp split: option.splits)
qed

lemma scanWord_isl:
  assumes "\<forall>pw\<in>set pws. inGrid pw" and "length g = gridSize"
  shows "\<not> isl (scanWord g word pws is)"
proof (induction "is")
  case Nil then show ?case by simp
next
  case (Cons i "is")
  from scanPlaced_isl[OF assms, of word i]
  obtain res where "scanPlaced g word i pws = Inr res"
    by (cases "scanPlaced g word i pws") auto
  with Cons.IH show ?case by (simp split: option.splits)
qed

lemma canPlaceWord_range:
  assumes "shaped g" and "canPlaceWord g word r c v = Inr True" and "i < length word"
  shows "0 \<le> fst (wordCell r c v i) \<and> fst (wordCell r c v i) < int gridSize \<and>
         0 \<le> snd (wordCell r c v i) \<and> snd (wordCell r c v i) < int gridSize"
proof -
  from canPlaceWord_agree[OF assms(2,3)]
  have "\<exists>x. cellAt g (fst (wordCell r c v i)) (snd (wordCell r c v i)) = Inr (Some x)"
    by (auto simp: occupant_def)
  with shaped_cellAt(2)[OF assms(1)] show ?thesis by blast
qed

lemma placeNext_inv:
  assumes inv: "cwInv g pws" and nb: "blank \<notin> set word"
  shows "\<exists>g' pws'. placeNext (g, pws) word = Inr (g', pws') \<and> cwInv g' pws'"
proof -
  from inv have sh: "shaped g" and ing: "\<forall>pw\<in>set pws. inGrid pw"
    by (auto simp: cwInv_def)
  from sh have lg: "length g = gridSize" by (simp add: shaped_def)
  from scanWord_isl[OF ing lg, of word "[0..<length word]"]
  obtain res where res: "scanWord g word pws [0..<length word] = Inr res"
    by (cases "scanWord g word pws [0..<length word]") auto
  show ?thesis
  proof (cases res)
    case None
    with res have "placeNext (g, pws) word = Inr (g, pws)" by (simp add: placeNext_def)
    with inv show ?thesis by blast
  next
    case (Some p)
    obtain r c v where p: "p = (r, c, v)" by (cases p)
    from scanWord_Some[of g word pws "[0..<length word]" p] res Some p
    have ok: "canPlaceWord g word r c v = Inr True" and ne: "word \<noteq> []" by auto
    have "\<forall>i\<in>set [0..<length word].
            0 \<le> fst (wordCell r c v i) \<and> fst (wordCell r c v i) < int (length g)"
      using canPlaceWord_range[OF sh ok] lg by simp
    from writeLetters_ok[OF this, of word]
    obtain g' where g': "placeWord g word r c v = Inr g'" by (auto simp: placeWord_def)
    from placeWord_inv[OF inv ok g' nb ne]
    have "cwInv g' (pws @ [\<lparr>wtext = word, row = r, col = c, vertical = v\<rparr>])" .
    moreover have "placeNext (g, pws) word =
        Inr (g', pws @ [\<lparr>wtext = word, row = r, col = c, vertical = v\<rparr>])"
      using res Some p g' by (simp add: placeNext_def)
    ultimately show ?thesis by blast
  qed
qed

lemma placeRemaining_inv:
  assumes "cwInv g pws" and "\<forall>k\<in>set idxs. blank \<notin> set (words ! k)"
  shows "\<exists>g' pws'. placeRemaining words (g, pws) idxs = Inr (g', pws') \<and> cwInv g' pws'"
  using assms
proof (induction idxs arbitrary: g pws)
  case Nil then show ?case by simp
next
  case (Cons k idxs)
  from Cons.prems(2) have nb: "blank \<notin> set (words ! k)" and
    rest: "\<forall>k\<in>set idxs. blank \<notin> set (words ! k)" by auto
  from placeNext_inv[OF Cons.prems(1) nb] obtain g1 pws1 where
    s1: "placeNext (g, pws) (words ! k) = Inr (g1, pws1)" and inv1: "cwInv g1 pws1" by blast
  from Cons.IH[OF inv1 rest] s1 show ?case by simp
qed

lemma firstWord_inv:
  assumes n: "length w \<le> gridSize" and nb: "blank \<notin> set w"
  defines "startCol \<equiv> (int gridSize - int (length w)) div 2"
  defines "startRow \<equiv> int gridSize div 2"
  shows "\<exists>g. writeLetters emptyGrid w startRow startCol False [0..<length w] = Inr g \<and>
             cwInv g [\<lparr>wtext = w, row = startRow, col = startCol, vertical = False\<rparr>]"
proof -
  let ?pw = "\<lparr>wtext = w, row = startRow, col = startCol, vertical = False\<rparr>"
  let ?cell = "wordCell startRow startCol False"
  have sr: "0 \<le> startRow" "startRow < int gridSize"
    by (simp_all add: startRow_def gridSize_def)
  have sc: "0 \<le> startCol" "startCol < int gridSize" "startCol + int (length w) \<le> int gridSize"
    using n by (simp_all add: startCol_def gridSize_def)
  have rows: "\<forall>i\<in>set [0..<length w]. 0 \<le> fst (?cell i) \<and> fst (?cell i) < int (length emptyGrid)"
    using sr by (simp add: wordCell_def emptyGrid_def)
  from writeLetters_ok[OF rows, of w] obtain g where
    g: "writeLetters emptyGrid w startRow startCol False [0..<length w] = Inr g" by blast
  have cols: "\<forall>i\<in>set [0..<length w]. 0 \<le> snd (?cell i) \<and> snd (?cell i) < int gridSize"
    using sc by (auto simp: wordCell_def)
  from shaped_writeLetters[OF shaped_emptyGrid g cols] have sh: "shaped g" .
  have ing: "inGrid ?pw" using sr sc by (simp add: inGrid_def)
  have lets: "occupant g startRow startCol False i = Inr (Some (w ! i))" if "i < length w" for i
    using writeLetters_written[OF g, of i] that by (simp add: occupant_def)
  have cov: "covered [?pw] r c" if "cellAt g r c = Inr (Some x)" and "x \<noteq> blank" for r c x
  proof (cases "\<exists>k<length w. ?cell k = (r, c)")
    case True
    then show ?thesis by (auto simp: covered_iff)
  next
    case False
    then have "\<forall>i\<in>set [0..<length w]. ?cell i \<noteq> (r, c)" by simp
    from writeLetters_other[OF g this] that(1) have "cellAt emptyGrid r c = Inr (Some x)" by simp
    from cellAt_emptyGrid[OF this] that(2) show ?thesis by simp
  qed
  have "cwInv g [?pw]"
    unfolding cwInv_def using sh ing nb lets cov by auto
  with g show ?thesis by blast
qed

lemma placeWords_inv:
  assumes "words \<noteq> []" and "length (words ! 0) \<le> gridSize" and "\<forall>w\<in>set words. blank \<notin> set w"
  shows "\<exists>g pws. placeWords words = Inr (g, pws) \<and> cwInv g pws"
proof -
  from assms(1,3) have nb0: "blank \<notin> set (words ! 0)" by (simp add: nth_mem)
  from firstWord_inv[OF assms(2) nb0] obtain g where
    g: "writeLetters emptyGrid (words ! 0) (int gridSize div 2)
          ((int gridSize - int (length (words ! 0))) div 2) False [0..<length (words ! 0)] = Inr g"
    and inv: "cwInv g [\<lparr>wtext = words ! 0, row = int gridSize div 2,
                 col = (int gridSize - int (length (words ! 0))) div 2, vertical = False\<rparr>]"
    by blast
  have "\<forall>k\<in>set [1..<min (length words) 8]. blank \<notin> set (words ! k)"
    using assms(3) by (simp add: nth_mem)
  from placeRemaining_inv[OF inv this] g show ?thesis
    by (simp add: placeWords_def Let_def)
qed

section \<open>The display grid\<close>

lemma sameFill_setCell:
  assumes "cellAt dg r c = Inr (Some cell)"
    and "setCell dg r c (cell\<lparr>hasNumber := True, number := Some n\<rparr>) = Inr dg'"
  shows "sameFill dg dg'"
  unfolding sameFill_def using assms(1) by (auto simp: cellAt_setCell[OF assms(2)])

lemma addNumbers_ok:
  assumes "shaped dg" and "\<forall>pw\<in>set pws. inGrid pw"
  shows "\<exists>cw. addNumbers dg n acr dwn pws = Inr cw \<and> shaped (grid cw) \<and> sameFill dg (grid cw)"
  using assms
proof (induction pws arbitrary: dg n acr dwn)
  case Nil
  then show ?case by (simp add: sameFill_def)
next
  case (Cons pw pws)
  from Cons.prems(2) have ing: "inGrid pw" and rest: "\<forall>pw\<in>set pws. inGrid pw" by auto
  from ing have rc: "0 \<le> row pw \<and> row pw < int gridSize \<and> 0 \<le> col pw \<and> col pw < int gridSize"
    by (simp add: inGrid_def)
  with shaped_cellAt(2)[OF Cons.prems(1), of "row pw" "col pw"]
  obtain cell where cell: "cellAt dg (row pw) (col pw) = Inr (Some cell)" by blast
  from rc Cons.prems(1) have "0 \<le> row pw \<and> row pw < int (length dg)" by (simp add: shaped_def)
  then obtain dg1 where
    dg1: "setCell dg (row pw) (col pw) (cell\<lparr>hasNumber := True, number := Some n\<rparr>) = Inr dg1"
    by (simp add: setCell_Inr)
  from shaped_setCell[OF Cons.prems(1) dg1] rc have sh1: "shaped dg1" by simp
  from sameFill_setCell[OF cell dg1] have sf: "sameFill dg dg1" .
  show ?case
  proof (cases "vertical pw")
    case True
    from Cons.IH[OF sh1 rest, of "n + 1" acr "dwn @ [(n, getClue (wtext pw))]"]
    obtain cw where "addNumbers dg1 (n + 1) acr (dwn @ [(n, getClue (wtext pw))]) pws = Inr cw"
      and "shaped (grid cw)" and "sameFill dg1 (grid cw)" by blast
    with sf True cell dg1 show ?thesis by (auto simp: sameFill_def)
  next
    case False
    from Cons.IH[OF sh1 rest, of "n + 1" "acr @ [(n, getClue (wtext pw))]" dwn]
    obtain cw where "addNumbers dg1 (n + 1) (acr @ [(n, getClue (wtext pw))]) dwn pws = Inr cw"
      and "shaped (grid cw)" and "sameFill dg1 (grid cw)" by blast
    with sf False cell dg1 show ?thesis by (auto simp: sameFill_def)
  qed
qed

lemma shaped_display: "shaped g \<Longrightarrow> shaped (map (amap toDisplay) g)"
  by (auto simp: shaped_def shapedRow_def amap_def)

lemma cellAt_display:
  assumes "shaped g"
  shows "cellAt (map (amap toDisplay) g) r c = map_sum id (map_option toDisplay) (cellAt g r c)"
proof (cases "0 \<le> r \<and> r < int (length g)")
  case False
  then show ?thesis by (auto simp: cellAt_def rowAt_def)
next
  case True
  then have "nat r < length g" by linarith
  then have "g ! nat r \<in> set g" by simp
  with assms have "shapedRow (g ! nat r)" by (simp add: shaped_def)
  then have "len (g ! nat r) = gridSize" and
    "\<not> (0 \<le> c \<and> c < int gridSize) \<Longrightarrow> at (g ! nat r) c = None"
    by (auto simp: shapedRow_def)
  with True \<open>nat r < length g\<close> show ?thesis
    by (auto simp: cellAt_def rowAt_def amap_def)
qed

lemma shaped_len:
  assumes "shaped g" and "r < gridSize"
  shows "len (g ! r) = gridSize" and "k < 0 \<or> int gridSize \<le> k \<Longrightarrow> at (g ! r) k = None"
proof -
  from assms have "g ! r \<in> set g" by (simp add: shaped_def)
  with assms(1) have sr: "shapedRow (g ! r)" by (simp add: shaped_def)
  then show "len (g ! r) = gridSize" by (simp add: shapedRow_def)
  show "at (g ! r) k = None" if a: "k < 0 \<or> int gridSize \<le> k"
  proof (rule ccontr)
    assume "at (g ! r) k \<noteq> None"
    with sr have "0 \<le> k \<and> k < int gridSize" unfolding shapedRow_def by blast
    with a show False by linarith
  qed
qed

text \<open>
  C9. For a non-empty word list whose first word has at most 15 letters and whose words
  hold no \<^verbatim>\<open>'_'\<close>, \<^verbatim>\<open>generateCrossword\<close> returns a grid of 15 rows of 15 cells,
  and in every cell \<open>isBlack\<close> holds exactly when \<open>letter\<close> is the empty string, which is
  exactly when no placed word covers the cell.
\<close>

theorem crossword_grid_cells:
  assumes "words \<noteq> []" and "length (words ! 0) \<le> 15" and "\<forall>w\<in>set words. blank \<notin> set w"
  shows "\<exists>g pws cw. placeWords words = Inr (g, pws) \<and> generateCrossword words = Inr cw \<and>
           length (grid cw) = 15 \<and>
           (\<forall>r<15. len (grid cw ! r) = 15 \<and>
              (\<forall>k. k < 0 \<or> 15 \<le> k \<longrightarrow> at (grid cw ! r) k = None) \<and>
              (\<forall>c<15. \<exists>cell. at (grid cw ! r) (int c) = Some cell \<and>
                  (isBlack cell \<longleftrightarrow> letter cell = []) \<and>
                  (isBlack cell \<longleftrightarrow> \<not> covered pws (int r) (int c))))"
proof -
  from assms(2) have "length (words ! 0) \<le> gridSize" by (simp add: gridSize_def)
  from placeWords_inv[OF assms(1) this assms(3)] obtain g pws where
    pw: "placeWords words = Inr (g, pws)" and inv: "cwInv g pws" by blast
  from inv have sh: "shaped g" and ing: "\<forall>pw\<in>set pws. inGrid pw" by (auto simp: cwInv_def)
  from addNumbers_ok[OF shaped_display[OF sh] ing, of 1 "[]" "[]"] obtain cw where
    cw: "addNumbers (map (amap toDisplay) g) 1 [] [] pws = Inr cw" and
    shc: "shaped (grid cw)" and sf: "sameFill (map (amap toDisplay) g) (grid cw)" by blast
  from cw pw assms(1) have gen: "generateCrossword words = Inr cw"
    by (simp add: generateCrossword_def)
  from shc have l: "length (grid cw) = 15" by (simp add: shaped_def gridSize_def)
  have rows: "len (grid cw ! r) = 15 \<and>
              (\<forall>k. k < 0 \<or> 15 \<le> k \<longrightarrow> at (grid cw ! r) k = None) \<and>
              (\<forall>c<15. \<exists>cell. at (grid cw ! r) (int c) = Some cell \<and>
                  (isBlack cell \<longleftrightarrow> letter cell = []) \<and>
                  (isBlack cell \<longleftrightarrow> \<not> covered pws (int r) (int c)))" if r: "r < 15" for r
  proof -
    from r have r': "r < gridSize" by (simp add: gridSize_def)
    from shaped_len[OF shc r'] have a: "len (grid cw ! r) = 15"
      and b: "\<forall>k. k < 0 \<or> 15 \<le> k \<longrightarrow> at (grid cw ! r) k = None"
      by (simp_all add: gridSize_def)
    have c: "\<exists>cell. at (grid cw ! r) (int c) = Some cell \<and>
                  (isBlack cell \<longleftrightarrow> letter cell = []) \<and>
                  (isBlack cell \<longleftrightarrow> \<not> covered pws (int r) (int c))" if c: "c < 15" for c
    proof -
      from r c have rg: "0 \<le> int r \<and> int r < int gridSize \<and> 0 \<le> int c \<and> int c < int gridSize"
        by (simp add: gridSize_def)
      with shaped_cellAt(2)[OF sh, of "int r" "int c"] obtain x where
        x: "cellAt g (int r) (int c) = Inr (Some x)" by blast
      from sf x have "map_sum id (map_option (\<lambda>x. (letter x, isBlack x))) (cellAt (grid cw) (int r) (int c))
          = Inr (Some (letter (toDisplay x), isBlack (toDisplay x)))"
        by (simp add: sameFill_def cellAt_display[OF sh])
      then obtain cell where cell: "cellAt (grid cw) (int r) (int c) = Inr (Some cell)"
        and lc: "letter cell = letter (toDisplay x)" and bc: "isBlack cell = isBlack (toDisplay x)"
        by (cases "cellAt (grid cw) (int r) (int c)") auto
      from cell r l have at: "at (grid cw ! r) (int c) = Some cell"
        by (simp add: cellAt_def rowAt_def split: if_splits)
      have cov: "covered pws (int r) (int c) \<longleftrightarrow> x \<noteq> blank"
      proof
        assume "covered pws (int r) (int c)"
        then obtain pw i where pw: "pw \<in> set pws" and i: "i < length (wtext pw)"
          and eq: "wordCell (row pw) (col pw) (vertical pw) i = (int r, int c)"
          by (auto simp: covered_iff)
        from inv pw i have "occupant g (row pw) (col pw) (vertical pw) i = Inr (Some (wtext pw ! i))"
          by (simp add: cwInv_def)
        with eq x have "x = wtext pw ! i" by (simp add: occupant_def)
        moreover from inv pw have "blank \<notin> set (wtext pw)" by (simp add: cwInv_def)
        ultimately show "x \<noteq> blank" using i by (metis nth_mem)
      next
        assume "x \<noteq> blank"
        with inv x show "covered pws (int r) (int c)" by (auto simp: cwInv_def)
      qed
      from at lc bc cov show ?thesis by (simp add: toDisplay_def)
    qed
    from a b c show ?thesis by blast
  qed
  from pw gen l rows show ?thesis by blast
qed

text \<open>The theorem at NOAH and ARK, for the cell below the crossing.\<close>

theorem crossword_grid_cells_witness:
  "\<exists>g pws cw. placeWords [''NOAH'', ''ARK''] = Inr (g, pws) \<and>
      generateCrossword [''NOAH'', ''ARK''] = Inr cw \<and>
      length (grid cw) = 15 \<and> len (grid cw ! 8) = 15 \<and>
      (\<exists>cell. at (grid cw ! 8) 7 = Some cell \<and>
         (isBlack cell \<longleftrightarrow> letter cell = []) \<and> (isBlack cell \<longleftrightarrow> \<not> covered pws 8 7))"
proof -
  have "[''NOAH'', ''ARK''] \<noteq> []" and "length ([''NOAH'', ''ARK''] ! 0) \<le> 15"
    and "\<forall>w\<in>set [''NOAH'', ''ARK'']. blank \<notin> set w"
    by (simp_all add: blank_def)
  from crossword_grid_cells[OF this] obtain g pws cw where
    "placeWords [''NOAH'', ''ARK''] = Inr (g, pws)" "generateCrossword [''NOAH'', ''ARK''] = Inr cw"
    "length (grid cw) = 15"
    and rows: "\<forall>r<15. len (grid cw ! r) = 15 \<and>
              (\<forall>k. k < 0 \<or> 15 \<le> k \<longrightarrow> at (grid cw ! r) k = None) \<and>
              (\<forall>c<15. \<exists>cell. at (grid cw ! r) (int c) = Some cell \<and>
                  (isBlack cell \<longleftrightarrow> letter cell = []) \<and>
                  (isBlack cell \<longleftrightarrow> \<not> covered pws (int r) (int c)))" by blast
  moreover have r8: "(8::nat) < 15" and c7: "(7::nat) < 15" by simp_all
  from rows[rule_format, OF r8] have a: "len (grid cw ! 8) = 15" and
    c: "\<forall>c<15. \<exists>cell. at (grid cw ! 8) (int c) = Some cell \<and>
                  (isBlack cell \<longleftrightarrow> letter cell = []) \<and>
                  (isBlack cell \<longleftrightarrow> \<not> covered pws (int 8) (int c))" by blast+
  from c[rule_format, OF c7]
  have "\<exists>cell. at (grid cw ! 8) 7 = Some cell \<and>
         (isBlack cell \<longleftrightarrow> letter cell = []) \<and> (isBlack cell \<longleftrightarrow> \<not> covered pws 8 7)" by simp
  moreover note a
  ultimately show ?thesis by blast
qed

section \<open>Word search: one attempt\<close>

lemma conflict_iff: "conflict pws cx cy \<longleftrightarrow> (\<exists>p\<in>set pws. (cx, cy) \<in> set (path p))"
  by (force simp: conflict_def list_ex_iff)

lemma cellOf_inj:
  assumes "direction \<in> {0, 1, 2, 3}" and "cellOf direction x y i = cellOf direction x y j"
  shows "i = j"
  using assms by (auto simp: cellOf_def split: if_splits)

lemma checkCells_True:
  assumes "checkCells g pws w d x y is = Inr True" and "i \<in> set is"
    and "conflict pws (fst (cellOf d x y i)) (snd (cellOf d x y i))"
  shows "cellAt g (snd (cellOf d x y i)) (fst (cellOf d x y i)) = Inr (Some (w ! i))"
  using assms(1,2)
proof (induction "is")
  case Nil then show ?case by simp
next
  case (Cons j "is")
  obtain cx cy where c: "cellOf d x y j = (cx, cy)" by (cases "cellOf d x y j")
  show ?case
  proof (cases "i = j")
    case True
    with Cons.prems(1) c assms(3) show ?thesis
      by (auto split: sum.splits if_splits)
  next
    case False
    with Cons.prems(2) have i: "i \<in> set is" by simp
    from Cons.prems(1) c have "checkCells g pws w d x y is = Inr True"
      by (auto split: sum.splits if_splits)
    from Cons.IH[OF this i] show ?thesis .
  qed
qed

lemma checkCells_isl:
  assumes "\<forall>i\<in>set is. 0 \<le> snd (cellOf d x y i) \<and> snd (cellOf d x y i) < int (length g)"
  shows "\<not> isl (checkCells g pws w d x y is)"
  using assms
proof (induction "is")
  case Nil then show ?case by simp
next
  case (Cons j "is")
  obtain cx cy where c: "cellOf d x y j = (cx, cy)" by (cases "cellOf d x y j")
  with Cons.prems have "0 \<le> cy \<and> cy < int (length g)" by simp
  then obtain cell where "cellAt g cy cx = Inr cell"
    by (cases "cellAt g cy cx") (use cellAt_isl[of g cy cx] in auto)
  with Cons c show ?case by simp
qed

lemma writeCells_step:
  "writeCells g pth w d x y (i # is) =
     (case setCell g (snd (cellOf d x y i)) (fst (cellOf d x y i)) (w ! i) of
        Inl e \<Rightarrow> Inl e
      | Inr g' \<Rightarrow> writeCells g' (pth @ [cellOf d x y i]) w d x y is)"
  by (cases "cellOf d x y i") (simp cong: sum.case_cong)

lemma writeCells_path:
  "writeCells g pth w d x y is = Inr (g', pth') \<Longrightarrow> pth' = pth @ map (cellOf d x y) is"
proof (induction "is" arbitrary: g pth)
  case Nil then show ?case by simp
next
  case (Cons i "is")
  from Cons.prems obtain g1 where
    "writeCells g1 (pth @ [cellOf d x y i]) w d x y is = Inr (g', pth')"
    by (auto simp: writeCells_step simp del: writeCells.simps split: sum.splits)
  from Cons.IH[OF this] show ?case by simp
qed

lemma writeCells_length:
  "writeCells g pth w d x y is = Inr (g', pth') \<Longrightarrow> length g' = length g"
proof (induction "is" arbitrary: g pth)
  case Nil then show ?case by simp
next
  case (Cons i "is")
  from Cons.prems obtain g1 where
    g1: "setCell g (snd (cellOf d x y i)) (fst (cellOf d x y i)) (w ! i) = Inr g1" and
    rest: "writeCells g1 (pth @ [cellOf d x y i]) w d x y is = Inr (g', pth')"
    by (auto simp: writeCells_step simp del: writeCells.simps split: sum.splits)
  from Cons.IH[OF rest] setCell_length[OF g1] show ?case by simp
qed

lemma writeCells_other:
  assumes "writeCells g pth w d x y is = Inr (g', pth')"
    and "\<forall>i\<in>set is. cellOf d x y i \<noteq> (cx, cy)"
  shows "cellAt g' cy cx = cellAt g cy cx"
  using assms
proof (induction "is" arbitrary: g pth)
  case Nil then show ?case by simp
next
  case (Cons i "is")
  from Cons.prems(1) obtain g1 where
    g1: "setCell g (snd (cellOf d x y i)) (fst (cellOf d x y i)) (w ! i) = Inr g1" and
    rest: "writeCells g1 (pth @ [cellOf d x y i]) w d x y is = Inr (g', pth')"
    by (auto simp: writeCells_step simp del: writeCells.simps split: sum.splits)
  from Cons.prems(2) have ne: "cellOf d x y i \<noteq> (cx, cy)" and
    ne': "\<forall>i\<in>set is. cellOf d x y i \<noteq> (cx, cy)" by auto
  have "cellAt g' cy cx = cellAt g1 cy cx" using Cons.IH[OF rest ne'] .
  also have "\<dots> = cellAt g cy cx"
    using ne by (cases "cellOf d x y i") (auto simp: cellAt_setCell[OF g1])
  finally show ?case .
qed

lemma writeCells_written:
  assumes "writeCells g pth w d x y is = Inr (g', pth')" and "i \<in> set is"
    and "d \<in> {0, 1, 2, 3}"
  shows "cellAt g' (snd (cellOf d x y i)) (fst (cellOf d x y i)) = Inr (Some (w ! i))"
  using assms(1,2)
proof (induction "is" arbitrary: g pth)
  case Nil then show ?case by simp
next
  case (Cons j "is")
  from Cons.prems(1) obtain g1 where
    g1: "setCell g (snd (cellOf d x y j)) (fst (cellOf d x y j)) (w ! j) = Inr g1" and
    rest: "writeCells g1 (pth @ [cellOf d x y j]) w d x y is = Inr (g', pth')"
    by (auto simp: writeCells_step simp del: writeCells.simps split: sum.splits)
  show ?case
  proof (cases "i \<in> set is")
    case True
    from Cons.IH[OF rest True] show ?thesis .
  next
    case False
    with Cons.prems(2) have ij: "i = j" by simp
    have "\<forall>k\<in>set is. cellOf d x y k \<noteq> (fst (cellOf d x y i), snd (cellOf d x y i))"
      using False cellOf_inj[OF assms(3)] by fastforce
    from writeCells_other[OF rest this]
    show ?thesis by (simp add: cellAt_setCell[OF g1] ij)
  qed
qed

lemma writeCells_ok:
  assumes "\<forall>i\<in>set is. 0 \<le> snd (cellOf d x y i) \<and> snd (cellOf d x y i) < int (length g)"
  shows "\<exists>g' pth'. writeCells g pth w d x y is = Inr (g', pth')"
  using assms
proof (induction "is" arbitrary: g pth)
  case Nil then show ?case by simp
next
  case (Cons i "is")
  let ?r = "snd (cellOf d x y i)" and ?c = "fst (cellOf d x y i)"
  let ?g1 = "g[nat ?r := aset (g ! nat ?r) ?c (w ! i)]"
  from Cons.prems have s: "setCell g ?r ?c (w ! i) = Inr ?g1" by (simp add: setCell_Inr)
  have "\<forall>i\<in>set is. 0 \<le> snd (cellOf d x y i) \<and> snd (cellOf d x y i) < int (length ?g1)"
    using Cons.prems by simp
  from Cons.IH[OF this] show ?case
    by (simp add: writeCells_step s del: writeCells.simps)
qed

text \<open>The anchor: the direction is one of four, and every row of the word is a row of the grid.\<close>

lemma randomInt_range: "0 < n \<Longrightarrow> 0 \<le> randomInt rnd t n \<and> randomInt rnd t n < n"
proof -
  assume n: "0 < n"
  then have "rnd t mod nat n < nat n" by simp
  then have "int (rnd t mod nat n) < n" using n by linarith
  with n show ?thesis by (simp add: randomInt_def)
qed

lemma anchor_direction:
  "anchor rnd gs t w = (d, x, y) \<Longrightarrow> d \<in> {0, 1, 2, 3}"
  using randomInt_range[of 4 rnd t] by (auto simp: anchor_def Let_def)

lemma anchor_rows:
  assumes "anchor rnd gs t w = (d, x, y)" and "length w \<le> gs" and "i < length w"
  shows "0 \<le> snd (cellOf d x y i) \<and> snd (cellOf d x y i) < int gs"
proof -
  from anchor_direction[OF assms(1)] have d: "d \<in> {0, 1, 2, 3}" .
  let ?n = "int gs - (if d = 1 \<or> d = 2 \<or> d = 3 then int (length w) else 0)"
  from assms(1) have y: "y = randomInt rnd (t + 2) ?n" by (auto simp: anchor_def Let_def)
  show ?thesis
  proof (cases "d = 0")
    case True
    with assms(2,3) have "0 < ?n" by simp
    from randomInt_range[OF this, of rnd "t + 2"] y True show ?thesis
      by (simp add: cellOf_def)
  next
    case False
    with d have n: "?n = int gs - int (length w)" by auto
    have "0 \<le> y \<and> y + int (length w) \<le> int gs"
    proof (cases "0 < ?n")
      case True
      from randomInt_range[OF this, of rnd "t + 2"] y n show ?thesis by simp
    next
      case False
      with n assms(2) have "?n = 0" by simp
      with y n show ?thesis by (simp add: randomInt_def)
    qed
    with False d assms(3) show ?thesis by (auto simp: cellOf_def)
  qed
qed

lemma attempt_cases:
  assumes "attempt rnd gs w s = Inr (s', b)"
  shows "(\<not> b \<and> s' = s\<lparr>calls := calls s + 3\<rparr>) \<or>
         (\<exists>d x y g'. b \<and> anchor rnd gs (calls s) w = (d, x, y) \<and>
            checkCells (letters s) (placedWords s) w d x y [0..<length w] = Inr True \<and>
            writeCells (letters s) [] w d x y [0..<length w] =
              Inr (g', map (cellOf d x y) [0..<length w]) \<and>
            s' = \<lparr>letters = g',
                  placedWords = placedWords s @
                    [\<lparr>wword = w, path = map (cellOf d x y) [0..<length w]\<rparr>],
                  calls = calls s + 3\<rparr>)"
proof -
  obtain d x y where a: "anchor rnd gs (calls s) w = (d, x, y)"
    by (cases "anchor rnd gs (calls s) w")
  show ?thesis
  proof (cases "checkCells (letters s) (placedWords s) w d x y [0..<length w]")
    case (Inl e)
    with assms a show ?thesis by (simp add: attempt_def)
  next
    case (Inr ok)
    show ?thesis
    proof (cases ok)
      case False
      with assms a Inr show ?thesis by (auto simp: attempt_def)
    next
      case True
      with assms a Inr obtain g' pth where
        wr: "writeCells (letters s) [] w d x y [0..<length w] = Inr (g', pth)" and
        s': "s' = \<lparr>letters = g', placedWords = placedWords s @ [\<lparr>wword = w, path = pth\<rparr>],
                  calls = calls s + 3\<rparr>" and b: b
        by (auto simp: attempt_def split: sum.splits)
      from writeCells_path[OF wr] have "pth = map (cellOf d x y) [0..<length w]" by simp
      with wr s' b a Inr True show ?thesis by auto
    qed
  qed
qed

lemma attempt_inv:
  assumes inv: "wsInv (letters s) (placedWords s)" and lg: "length (letters s) = gs"
    and lw: "length w \<le> gs"
  shows "\<exists>s' b. attempt rnd gs w s = Inr (s', b) \<and>
           wsInv (letters s') (placedWords s') \<and> length (letters s') = gs"
proof -
  let ?g = "letters s" and ?pws = "placedWords s"
  obtain d x y where a: "anchor rnd gs (calls s) w = (d, x, y)"
    by (cases "anchor rnd gs (calls s) w")
  from anchor_direction[OF a] have d: "d \<in> {0, 1, 2, 3}" .
  have rows: "\<forall>i\<in>set [0..<length w]. 0 \<le> snd (cellOf d x y i) \<and>
                snd (cellOf d x y i) < int (length ?g)"
    using anchor_rows[OF a lw] lg by simp
  from checkCells_isl[OF rows, of ?pws w] obtain ok where
    ck: "checkCells ?g ?pws w d x y [0..<length w] = Inr ok"
    by (cases "checkCells ?g ?pws w d x y [0..<length w]") auto
  show ?thesis
  proof (cases ok)
    case False
    with a ck have "attempt rnd gs w s = Inr (s\<lparr>calls := calls s + 3\<rparr>, False)"
      by (simp add: attempt_def)
    with inv lg show ?thesis
      by (intro exI[of _ "s\<lparr>calls := calls s + 3\<rparr>"] exI[of _ False]) simp
  next
    case True
    with ck have ckT: "checkCells ?g ?pws w d x y [0..<length w] = Inr True" by simp
    from writeCells_ok[OF rows, of "[]" w] obtain g' pth where
      wr: "writeCells ?g [] w d x y [0..<length w] = Inr (g', pth)" by blast
    from writeCells_path[OF wr] have pth: "pth = map (cellOf d x y) [0..<length w]" by simp
    let ?s' = "\<lparr>letters = g', placedWords = ?pws @ [\<lparr>wword = w, path = pth\<rparr>],
                 calls = calls s + 3\<rparr>"
    from a ck True wr have att: "attempt rnd gs w s = Inr (?s', True)"
      by (simp add: attempt_def)
    have new: "cellAt g' (snd (pth ! i)) (fst (pth ! i)) = Inr (Some (w ! i))"
      if "i < length w" for i
      using writeCells_written[OF wr _ d, of i] that by (simp add: pth)
    have old: "cellAt g' (snd (path p ! i)) (fst (path p ! i)) = Inr (Some (wword p ! i))"
      if p: "p \<in> set ?pws" and i: "i < length (wword p)" for p i
    proof -
      from inv p i have lp: "length (path p) = length (wword p)" and
        before: "cellAt ?g (snd (path p ! i)) (fst (path p ! i)) = Inr (Some (wword p ! i))"
        by (auto simp: wsInv_def)
      show ?thesis
      proof (cases "\<exists>k<length w. cellOf d x y k = path p ! i")
        case True
        then obtain k where k: "k < length w" and eq: "cellOf d x y k = path p ! i" by blast
        from i lp have "path p ! i \<in> set (path p)" by simp
        with p eq have "conflict ?pws (fst (cellOf d x y k)) (snd (cellOf d x y k))"
          by (auto simp: conflict_iff)
        from checkCells_True[OF ckT _ this] k
        have "cellAt ?g (snd (cellOf d x y k)) (fst (cellOf d x y k)) = Inr (Some (w ! k))"
          by simp
        with before eq have "w ! k = wword p ! i" by simp
        moreover from writeCells_written[OF wr _ d, of k] k
        have "cellAt g' (snd (cellOf d x y k)) (fst (cellOf d x y k)) = Inr (Some (w ! k))"
          by simp
        ultimately show ?thesis using eq by simp
      next
        case False
        then have "\<forall>k\<in>set [0..<length w]. cellOf d x y k \<noteq> (fst (path p ! i), snd (path p ! i))"
          by simp
        from writeCells_other[OF wr this] before show ?thesis by simp
      qed
    qed
    have "wsInv g' (?pws @ [\<lparr>wword = w, path = pth\<rparr>])"
      unfolding wsInv_def
    proof (intro ballI conjI allI impI)
      fix p assume "p \<in> set (?pws @ [\<lparr>wword = w, path = pth\<rparr>])"
      then consider "p \<in> set ?pws" | "p = \<lparr>wword = w, path = pth\<rparr>" by auto
      then show "length (path p) = length (wword p)"
        using inv by cases (auto simp: wsInv_def pth)
    next
      fix p i assume p: "p \<in> set (?pws @ [\<lparr>wword = w, path = pth\<rparr>])" and i: "i < length (wword p)"
      from p consider "p \<in> set ?pws" | "p = \<lparr>wword = w, path = pth\<rparr>" by auto
      then show "cellAt g' (snd (path p ! i)) (fst (path p ! i)) = Inr (Some (wword p ! i))"
      proof cases
        case 1 from old[OF 1 i] show ?thesis .
      next
        case 2 with new[of i] i show ?thesis by simp
      qed
    qed
    moreover from writeCells_length[OF wr] lg have "length g' = gs" by simp
    ultimately show ?thesis using att
      by (intro exI[of _ ?s'] exI[of _ True]) simp
  qed
qed

section \<open>Word search: the retry loop and the loop over the words\<close>

lemma retry_inv:
  assumes lw: "length w \<le> gs"
  shows "wsInv (letters s) (placedWords s) \<Longrightarrow> length (letters s) = gs \<Longrightarrow>
         \<exists>s'. retry rnd gs w k s = Inr s' \<and> wsInv (letters s') (placedWords s') \<and>
              length (letters s') = gs"
proof (induction "50 - k" arbitrary: k s)
  case 0
  then have "\<not> k < 50" by simp
  with "0.prems" show ?case by (simp add: retry.simps[of rnd gs w k s])
next
  case (Suc n)
  then have k: "k < 50" by simp
  from attempt_inv[OF Suc.prems lw, of rnd] obtain s1 b where
    att: "attempt rnd gs w s = Inr (s1, b)" and inv1: "wsInv (letters s1) (placedWords s1)"
    and lg1: "length (letters s1) = gs" by blast
  show ?case
  proof (cases b)
    case True
    with k att inv1 lg1 show ?thesis by (simp add: retry.simps[of rnd gs w k s])
  next
    case False
    from Suc.hyps(2) have "n = 50 - (k + 1)" by simp
    from Suc.hyps(1)[OF this inv1 lg1] k att False show ?thesis
      by (simp add: retry.simps[of rnd gs w k s])
  qed
qed

lemma retry_frame:
  "retry rnd gs w k s = Inr s' \<Longrightarrow>
   (letters s' = letters s \<and> placedWords s' = placedWords s) \<or>
   (\<exists>s0. letters s0 = letters s \<and> placedWords s0 = placedWords s \<and>
         attempt rnd gs w s0 = Inr (s', True))"
proof (induction "50 - k" arbitrary: k s)
  case 0
  then have "\<not> k < 50" by simp
  with "0.prems" show ?case by (simp add: retry.simps[of rnd gs w k s])
next
  case (Suc n)
  then have k: "k < 50" by simp
  from Suc.prems k obtain s1 b where att: "attempt rnd gs w s = Inr (s1, b)"
    by (cases "attempt rnd gs w s") (auto simp: retry.simps[of rnd gs w k s])
  show ?case
  proof (cases b)
    case True
    with k att Suc.prems have "s' = s1" by (simp add: retry.simps[of rnd gs w k s])
    with att True show ?thesis by auto
  next
    case False
    with att attempt_cases[OF att] have same: "letters s1 = letters s" "placedWords s1 = placedWords s"
      by auto
    from Suc.hyps(2) have n: "n = 50 - (k + 1)" by simp
    from k att False Suc.prems have "retry rnd gs w (k + 1) s1 = Inr s'"
      by (simp add: retry.simps[of rnd gs w k s])
    from Suc.hyps(1)[OF n this] same show ?thesis by simp
  qed
qed

lemma placeAll_inv:
  "wsInv (letters s) (placedWords s) \<Longrightarrow> length (letters s) = gs \<Longrightarrow>
   \<exists>s'. placeAll normalise rnd gs ws s = Inr s' \<and> wsInv (letters s') (placedWords s') \<and>
        length (letters s') = gs"
proof (induction ws arbitrary: s)
  case Nil then show ?case by simp
next
  case (Cons w ws)
  show ?case
  proof (cases "length (normalise w) > gs")
    case True
    with Cons.IH[OF Cons.prems] show ?thesis by (simp add: Let_def)
  next
    case False
    then have "length (normalise w) \<le> gs" by simp
    from retry_inv[OF this Cons.prems, of rnd 0] obtain s1 where
      r: "retry rnd gs (normalise w) 0 s = Inr s1" and inv1: "wsInv (letters s1) (placedWords s1)"
      and lg1: "length (letters s1) = gs" by blast
    from Cons.IH[OF inv1 lg1] r False show ?thesis by (simp add: Let_def)
  qed
qed

text \<open>
  C6. \<^verbatim>\<open>generateWordSearch\<close> completes, and for every two placed words whose paths
  share a cell, the letter stored at that cell is the letter of both words at their
  positions on it.
\<close>

theorem overlapping_words_agree:
  "\<exists>s. generateWordSearch normalise rnd words gs = Inr s \<and>
     (\<forall>p\<in>set (placedWords s). \<forall>q\<in>set (placedWords s).
        \<forall>i<length (path p). \<forall>j<length (path q).
          path p ! i = path q ! j \<longrightarrow>
            cellAt (letters s) (snd (path p ! i)) (fst (path p ! i)) = Inr (Some (wword p ! i)) \<and>
            cellAt (letters s) (snd (path p ! i)) (fst (path p ! i)) = Inr (Some (wword q ! j)))"
proof -
  let ?s0 = "\<lparr>letters = initLetters rnd gs, placedWords = [], calls = gs * gs\<rparr>"
  have "wsInv (letters ?s0) (placedWords ?s0)" by (simp add: wsInv_def)
  moreover have "length (letters ?s0) = gs" by (simp add: initLetters_def)
  ultimately obtain s where s: "placeAll normalise rnd gs words ?s0 = Inr s"
    and inv: "wsInv (letters s) (placedWords s)"
    using placeAll_inv[of ?s0 gs normalise rnd words] by blast
  have "cellAt (letters s) (snd (path p ! i)) (fst (path p ! i)) = Inr (Some (wword p ! i)) \<and>
        cellAt (letters s) (snd (path p ! i)) (fst (path p ! i)) = Inr (Some (wword q ! j))"
    if "p \<in> set (placedWords s)" "q \<in> set (placedWords s)" "i < length (path p)"
      "j < length (path q)" "path p ! i = path q ! j" for p q i j
  proof -
    from inv that(1,3) have
      "cellAt (letters s) (snd (path p ! i)) (fst (path p ! i)) = Inr (Some (wword p ! i))"
      by (simp add: wsInv_def)
    moreover from inv that(2,4) have
      "cellAt (letters s) (snd (path q ! j)) (fst (path q ! j)) = Inr (Some (wword q ! j))"
      by (simp add: wsInv_def)
    ultimately show ?thesis using that(5) by simp
  qed
  with s show ?thesis unfolding generateWordSearch_def by blast
qed

lemma overlap_eval:
  "case generateWordSearch upperNoSpace (\<lambda>t. if t = 403 then 1 else 0) [''ab'', ''a c''] 20 of
     Inl e \<Rightarrow> False
   | Inr s \<Rightarrow> placedWords s = [\<lparr>wword = ''AB'', path = [(0, 0), (1, 0)]\<rparr>,
                                 \<lparr>wword = ''AC'', path = [(0, 0), (0, 1)]\<rparr>]"
  by code_simp

text \<open>The theorem at AB placed across and AC placed down from the same cell.\<close>

theorem overlapping_words_agree_witness:
  "\<exists>s. generateWordSearch upperNoSpace (\<lambda>t. if t = 403 then 1 else 0) [''ab'', ''a c''] 20 = Inr s \<and>
       placedWords s = [\<lparr>wword = ''AB'', path = [(0, 0), (1, 0)]\<rparr>,
                        \<lparr>wword = ''AC'', path = [(0, 0), (0, 1)]\<rparr>] \<and>
       cellAt (letters s) 0 0 = Inr (Some CHR ''A'')"
proof -
  let ?rnd = "\<lambda>t::nat. if t = 403 then 1 else (0::nat)"
  from overlapping_words_agree[of upperNoSpace ?rnd "[''ab'', ''a c'']" 20] obtain s where
    s: "generateWordSearch upperNoSpace ?rnd [''ab'', ''a c''] 20 = Inr s" and
    agree: "\<forall>p\<in>set (placedWords s). \<forall>q\<in>set (placedWords s).
        \<forall>i<length (path p). \<forall>j<length (path q).
          path p ! i = path q ! j \<longrightarrow>
            cellAt (letters s) (snd (path p ! i)) (fst (path p ! i)) = Inr (Some (wword p ! i)) \<and>
            cellAt (letters s) (snd (path p ! i)) (fst (path p ! i)) = Inr (Some (wword q ! j))"
    by blast
  from overlap_eval s have pw: "placedWords s = [\<lparr>wword = ''AB'', path = [(0, 0), (1, 0)]\<rparr>,
                        \<lparr>wword = ''AC'', path = [(0, 0), (0, 1)]\<rparr>]" by simp
  let ?p = "\<lparr>wword = ''AB'', path = [(0::int, 0::int), (1, 0)]\<rparr>"
  let ?q = "\<lparr>wword = ''AC'', path = [(0::int, 0::int), (0, 1)]\<rparr>"
  have "?p \<in> set (placedWords s)" "?q \<in> set (placedWords s)" by (simp_all add: pw)
  from agree[rule_format, OF this, of 0 0]
  have "cellAt (letters s) 0 0 = Inr (Some CHR ''A'')" by simp
  with s pw show ?thesis by blast
qed

text \<open>
  C10. A rejected attempt leaves the letter grid and the list of placed words as they
  were; and whatever the retry loop of a word returns, either both are as they were on
  entry, or they were so up to the one accepted attempt that produced the result.
\<close>

theorem rejected_attempts_write_nothing:
  "(attempt rnd gs wordUpper s = Inr (s', False) \<longrightarrow>
      letters s' = letters s \<and> placedWords s' = placedWords s) \<and>
   (retry rnd gs wordUpper attempts s = Inr s'' \<longrightarrow>
      (letters s'' = letters s \<and> placedWords s'' = placedWords s) \<or>
      (\<exists>s0. letters s0 = letters s \<and> placedWords s0 = placedWords s \<and>
            attempt rnd gs wordUpper s0 = Inr (s'', True)))"
proof (rule conjI; rule impI)
  assume "attempt rnd gs wordUpper s = Inr (s', False)"
  from attempt_cases[OF this] show "letters s' = letters s \<and> placedWords s' = placedWords s"
    by auto
next
  assume "retry rnd gs wordUpper attempts s = Inr s''"
  from retry_frame[OF this]
  show "(letters s'' = letters s \<and> placedWords s'' = placedWords s) \<or>
      (\<exists>s0. letters s0 = letters s \<and> placedWords s0 = placedWords s \<and>
            attempt rnd gs wordUpper s0 = Inr (s'', True))" .
qed

lemma rejected_eval:
  "case generateWordSearch upperNoSpace (\<lambda>t. 0) [''AB''] 20 of
     Inl e \<Rightarrow> False
   | Inr s \<Rightarrow> map path (placedWords s) = [[(0, 0), (1, 0)]] \<and>
       (case attempt (\<lambda>t. 0) 20 ''CD'' s of
          Inl e \<Rightarrow> False
        | Inr r \<Rightarrow> \<not> snd r) \<and>
       (case retry (\<lambda>t. 0) 20 ''CD'' 0 s of
          Inl e \<Rightarrow> False
        | Inr r \<Rightarrow> map path (placedWords r) = [[(0, 0), (1, 0)]])"
  by code_simp

text \<open>The theorem at CD, which every attempt puts on the cells of AB.\<close>

theorem rejected_attempts_write_nothing_witness:
  "\<exists>s s' s''. generateWordSearch upperNoSpace (\<lambda>t. 0) [''AB''] 20 = Inr s \<and>
     map path (placedWords s) = [[(0, 0), (1, 0)]] \<and>
     attempt (\<lambda>t. 0) 20 ''CD'' s = Inr (s', False) \<and>
     letters s' = letters s \<and> placedWords s' = placedWords s \<and>
     retry (\<lambda>t. 0) 20 ''CD'' 0 s = Inr s'' \<and>
     letters s'' = letters s \<and> placedWords s'' = placedWords s"
proof -
  let ?rnd = "\<lambda>t::nat. 0::nat"
  obtain s where s: "generateWordSearch upperNoSpace ?rnd [''AB''] 20 = Inr s"
    using rejected_eval by (cases "generateWordSearch upperNoSpace ?rnd [''AB''] 20") auto
  from rejected_eval s have pw: "map path (placedWords s) = [[(0, 0), (1, 0)]]" by simp
  obtain s' where s': "attempt ?rnd 20 ''CD'' s = Inr (s', False)"
    using rejected_eval s by (cases "attempt ?rnd 20 ''CD'' s") auto
  obtain s'' where s'': "retry ?rnd 20 ''CD'' 0 s = Inr s''"
    using rejected_eval s by (cases "retry ?rnd 20 ''CD'' 0 s") auto
  from rejected_eval s s'' have pw'': "map path (placedWords s'') = [[(0, 0), (1, 0)]]" by simp
  note inst = rejected_attempts_write_nothing[of ?rnd 20 "''CD''" s s' 0 s'']
  from inst s' have a: "letters s' = letters s \<and> placedWords s' = placedWords s" by blast
  from inst s'' have "(letters s'' = letters s \<and> placedWords s'' = placedWords s) \<or>
      (\<exists>s0. letters s0 = letters s \<and> placedWords s0 = placedWords s \<and>
            attempt ?rnd 20 ''CD'' s0 = Inr (s'', True))" by blast
  then have b: "letters s'' = letters s \<and> placedWords s'' = placedWords s"
  proof
    assume "letters s'' = letters s \<and> placedWords s'' = placedWords s"
    then show ?thesis .
  next
    assume "\<exists>s0. letters s0 = letters s \<and> placedWords s0 = placedWords s \<and>
            attempt ?rnd 20 ''CD'' s0 = Inr (s'', True)"
    then obtain s0 where s0: "placedWords s0 = placedWords s" and
      att: "attempt ?rnd 20 ''CD'' s0 = Inr (s'', True)" by blast
    from attempt_cases[OF att] s0 have "length (placedWords s'') = Suc (length (placedWords s))"
      by auto
    with pw pw'' have False by (metis length_map list.size(3,4) n_not_Suc_n)
    then show ?thesis ..
  qed
  from s pw s' a s'' b show ?thesis
    by (intro exI[of _ s] exI[of _ s'] exI[of _ s'']) simp
qed

section \<open>Word search: the diagonal down-left\<close>

text \<open>
  C2 does not hold of the code: for direction 3 the anchor column is drawn from the whole
  width, although the word runs to the left. With direction 3 and the anchor \<open>(0, 0)\<close>
  the second letter of AB is written at column \<open>-1\<close> of row 1.
\<close>

theorem diagonal_down_left_leaves_grid:
  "map_sum id (\<lambda>s. (map wword (placedWords s), map path (placedWords s), cellAt (letters s) 1 (- 1)))
     (generateWordSearch upperNoSpace (\<lambda>t. if t = 400 then 3 else 0) [''AB''] 20)
   = Inr ([''AB''], [[(0, 0), (- 1, 1)]], Inr (Some CHR ''B''))"
  by code_simp

end
